theory Spec2Isabelle
  imports Complex_Main "HOL-Library.AList" "HOL-Library.Multiset" "HOL-Library.Sublist"
    "HOL-Library.Extended_Nat"
begin

section \<open>Data model of the test runner\<close>

text \<open>
  The runner (\<^verbatim>\<open>runner.ts\<close>) works on the classes \<^verbatim>\<open>Suite\<close> and \<^verbatim>\<open>TestCase\<close> of
  \<^verbatim>\<open>test.ts\<close>, on \<^verbatim>\<open>TestGroup\<close> of \<^verbatim>\<open>dispatcher.ts\<close> and on \<^verbatim>\<open>FullProjectInternal\<close> of
  \<^verbatim>\<open>types.ts\<close>. Only the fields the runner reads or writes are kept.
  Object identity (the runner keys a \<^verbatim>\<open>Map\<close> and fills a \<^verbatim>\<open>Set\<close> with objects) is an
  explicit identifier field.
\<close>

datatype parallelMode = ModeDefault | ModeParallel | ModeSerial

datatype hookType = BeforeAll | AfterAll | BeforeEach | AfterEach

datatype runMode = RunDefault | RunAlways

datatype error = TypeError

record fullProject =
  project_name :: string
  project_run :: runMode
  project_stage :: int

text \<open>The fields of one \<^verbatim>\<open>Suite\<close> object other than its links to other objects.\<close>

record suiteInfo =
  suite_id :: nat
  suite_title :: string
  suite_only :: bool
  suite_parallelMode :: parallelMode
  suite_hooks :: "hookType list"
  suite_projectConfig :: "fullProject option"

text \<open>
  \<^verbatim>\<open>suite.parent\<close>: the chain of enclosing suites as seen from below, innermost first.
  The chain is finite: \<^verbatim>\<open>parent\<close> of the root suite is \<^verbatim>\<open>undefined\<close>.
\<close>

datatype parentLink = ParentLink (link_info: suiteInfo) (link_parent: "parentLink option")

record testCase =
  test_id :: nat
  test_title :: string
  test_only :: bool
  test_workerHash :: string
  test_requireFile :: string
  test_repeatEachIndex :: nat
  test_projectId :: string
  test_parent :: parentLink

record testGroup =
  workerHash :: string
  requireFile :: string
  repeatEachIndex :: nat
  projectId :: string
  run :: runMode
  tests :: "testCase list"
  watchMode :: bool

text \<open>
  Modelled from the spec: the class \<^verbatim>\<open>Suite\<close> is declared in \<^verbatim>\<open>test.ts\<close>, which is not
  among the sources. A suite owns its ordered \<^verbatim>\<open>entries\<close>, each a suite or a test case, in
  declaration order; the arrays \<^verbatim>\<open>suites\<close> and \<^verbatim>\<open>tests\<close> of the class are the suites and
  the tests of \<^verbatim>\<open>_entries\<close>, in the same order.
\<close>

datatype suite = Suite (info: suiteInfo) (entries: "entry list")
  and entry = ESuite suite | ETest testCase

fun suites :: "suite \<Rightarrow> suite list" where
  "suites (Suite i es) = concat (map (\<lambda>e. case e of ESuite c \<Rightarrow> [c] | ETest t \<Rightarrow> []) es)"

fun suite_tests :: "suite \<Rightarrow> testCase list" where
  "suite_tests (Suite i es) = concat (map (\<lambda>e. case e of ESuite c \<Rightarrow> [] | ETest t \<Rightarrow> [t]) es)"

text \<open>
  Modelled from the spec: \<^verbatim>\<open>Suite.allTests()\<close> (in \<^verbatim>\<open>test.ts\<close>) lists the tests of the
  subtree, visiting the entries in order and descending into child suites.
\<close>

fun allTests :: "suite \<Rightarrow> testCase list"
  and allTestsOfEntries :: "entry list \<Rightarrow> testCase list" where
  "allTests (Suite i es) = allTestsOfEntries es"
| "allTestsOfEntries [] = []"
| "allTestsOfEntries (ESuite c # es) = allTests c @ allTestsOfEntries es"
| "allTestsOfEntries (ETest t # es) = t # allTestsOfEntries es"

text \<open>
  Modelled from the spec: \<^verbatim>\<open>Suite.project()\<close> (in \<^verbatim>\<open>test.ts\<close>) is the project attached to
  the suite itself or else to its nearest enclosing suite; \<^verbatim>\<open>undefined\<close> when there is none.
\<close>

fun project :: "parentLink \<Rightarrow> fullProject option" where
  "project (ParentLink i p) =
     (case suite_projectConfig i of
        Some c \<Rightarrow> Some c
      | None \<Rightarrow> (case p of None \<Rightarrow> None | Some q \<Rightarrow> project q))"

section \<open>The test grouper: \<^verbatim>\<open>createTestGroups\<close>\<close>

text \<open>
  \<^verbatim>\<open>createGroup(test)\<close>. The source reads \<^verbatim>\<open>test.parent.project()!.run\<close>: when no enclosing
  suite carries a project the property access throws a \<^verbatim>\<open>TypeError\<close>.
\<close>

definition createGroup :: "testCase \<Rightarrow> error + testGroup" where
  "createGroup test =
     (case project (test_parent test) of
        None \<Rightarrow> Inl TypeError
      | Some p \<Rightarrow> Inr \<lparr> workerHash = test_workerHash test,
                       requireFile = test_requireFile test,
                       repeatEachIndex = test_repeatEachIndex test,
                       projectId = test_projectId test,
                       run = project_run p,
                       tests = [],
                       watchMode = False \<rparr>)"

text \<open>The key of the \<^verbatim>\<open>parallel\<close> map is a \<^verbatim>\<open>Suite\<close> or a \<^verbatim>\<open>TestCase\<close> object.\<close>

datatype groupKey = KeySuite parentLink | KeyTest testCase

record bucket =
  general :: testGroup
  parallel :: "(groupKey \<times> testGroup) list"
  parallelWithHooks :: testGroup

text \<open>
  A JavaScript \<^verbatim>\<open>Map\<close> iterates in insertion order and \<^verbatim>\<open>set\<close> on a present key keeps the
  key's place: an association list read with \<^term>\<open>map_of\<close> and written with
  \<^term>\<open>AList.update\<close>.
\<close>

type_synonym groupsMap = "(string \<times> (string \<times> bucket) list) list"

definition pushTest :: "testGroup \<Rightarrow> testCase \<Rightarrow> testGroup" where
  "pushTest g test = g\<lparr> tests := tests g @ [test] \<rparr>"

definition hasAllHook :: "suiteInfo \<Rightarrow> bool" where
  "hasAllHook i = list_ex (\<lambda>h. h = BeforeAll \<or> h = AfterAll) (suite_hooks i)"

text \<open>
  The loop \<^verbatim>\<open>for (let parent = test.parent; parent; parent = parent.parent)\<close> with its three
  variables \<^verbatim>\<open>insideParallel\<close>, \<^verbatim>\<open>outerMostSerialSuite\<close> and \<^verbatim>\<open>hasAllHooks\<close>.
\<close>

fun walkParents :: "parentLink option \<Rightarrow> bool \<times> parentLink option \<times> bool
    \<Rightarrow> bool \<times> parentLink option \<times> bool" where
  "walkParents None st = st"
| "walkParents (Some (ParentLink i p)) (insideParallel, outerMostSerialSuite, hasAllHooks) =
     walkParents p
       (insideParallel \<or> suite_parallelMode i = ModeParallel,
        (if suite_parallelMode i = ModeSerial then Some (ParentLink i p) else outerMostSerialSuite),
        hasAllHooks \<or> hasAllHook i)"

text \<open>The body of the loop over the tests, from the bucket \<^verbatim>\<open>withRequireFile\<close> on.\<close>

definition placeInBucket :: "bucket \<Rightarrow> testCase \<Rightarrow> error + bucket" where
  "placeInBucket withRequireFile test =
     (case walkParents (Some (test_parent test)) (False, None, False) of
        (insideParallel, outerMostSerialSuite, hasAllHooks) \<Rightarrow>
          if insideParallel then
            if hasAllHooks \<and> outerMostSerialSuite = None then
              Inr (withRequireFile\<lparr> parallelWithHooks :=
                     pushTest (parallelWithHooks withRequireFile) test \<rparr>)
            else
              (let key = (case outerMostSerialSuite of Some s \<Rightarrow> KeySuite s | None \<Rightarrow> KeyTest test)
               in case map_of (parallel withRequireFile) key of
                    Some grp \<Rightarrow>
                      Inr (withRequireFile\<lparr> parallel :=
                             AList.update key (pushTest grp test) (parallel withRequireFile) \<rparr>)
                  | None \<Rightarrow>
                      (case createGroup test of
                         Inl e \<Rightarrow> Inl e
                       | Inr grp \<Rightarrow>
                           Inr (withRequireFile\<lparr> parallel :=
                                  AList.update key (pushTest grp test)
                                    (parallel withRequireFile) \<rparr>)))
          else
            Inr (withRequireFile\<lparr> general := pushTest (general withRequireFile) test \<rparr>))"

text \<open>The bucket a test is put into when its \<^verbatim>\<open>(workerHash, requireFile)\<close> is new.\<close>

definition newBucket :: "testCase \<Rightarrow> error + bucket" where
  "newBucket test =
     (case createGroup test of
        Inl e \<Rightarrow> Inl e
      | Inr g \<Rightarrow> Inr \<lparr> general = g, parallel = [], parallelWithHooks = g \<rparr>)"

definition lookupBucket :: "groupsMap \<Rightarrow> string \<Rightarrow> string \<Rightarrow> bucket option" where
  "lookupBucket groups wh rf =
     (case map_of groups wh of None \<Rightarrow> None | Some withWorkerHash \<Rightarrow> map_of withWorkerHash rf)"

definition placeTest :: "groupsMap \<Rightarrow> testCase \<Rightarrow> error + groupsMap" where
  "placeTest groups test =
     (let withWorkerHash =
            (case map_of groups (test_workerHash test) of Some m \<Rightarrow> m | None \<Rightarrow> [])
      in case (case map_of withWorkerHash (test_requireFile test) of
                 Some b \<Rightarrow> Inr b
               | None \<Rightarrow> newBucket test) of
           Inl e \<Rightarrow> Inl e
         | Inr withRequireFile \<Rightarrow>
             (case placeInBucket withRequireFile test of
                Inl e \<Rightarrow> Inl e
              | Inr b \<Rightarrow>
                  Inr (AList.update (test_workerHash test)
                         (AList.update (test_requireFile test) b withWorkerHash) groups)))"

fun placeTests :: "groupsMap \<Rightarrow> testCase list \<Rightarrow> error + groupsMap" where
  "placeTests groups [] = Inr groups"
| "placeTests groups (test # rest) =
     (case placeTest groups test of
        Inl e \<Rightarrow> Inl e
      | Inr groups' \<Rightarrow> placeTests groups' rest)"

text \<open>
  \<^verbatim>\<open>Math.ceil(tests.length / workers)\<close>. The division is the division of JavaScript
  numbers: for \<^verbatim>\<open>workers = 0\<close> it is \<^verbatim>\<open>Infinity\<close> (or \<^verbatim>\<open>NaN\<close> for no tests, when the loop
  below does not run), and no length reaches it.
\<close>

definition parallelWithHooksGroupSize :: "nat \<Rightarrow> nat \<Rightarrow> enat" where
  "parallelWithHooksGroupSize n workers =
     (if workers = 0 then \<infinity> else enat ((n + workers - 1) div workers))"

text \<open>
  The loop over \<^verbatim>\<open>parallelWithHooks.tests\<close>. \<^verbatim>\<open>acc\<close> holds the groups this loop has pushed
  to \<^verbatim>\<open>result\<close>; \<^verbatim>\<open>lastGroup\<close> is the last of them, \<^verbatim>\<open>undefined\<close> before the first push.
\<close>

fun splitParallelWithHooks :: "enat \<Rightarrow> testGroup list \<Rightarrow> testCase list \<Rightarrow> error + testGroup list" where
  "splitParallelWithHooks groupSize acc [] = Inr acc"
| "splitParallelWithHooks groupSize acc (test # rest) =
     (if acc = [] \<or> groupSize \<le> enat (length (tests (last acc))) then
        (case createGroup test of
           Inl e \<Rightarrow> Inl e
         | Inr lastGroup \<Rightarrow> splitParallelWithHooks groupSize (acc @ [pushTest lastGroup test]) rest)
      else splitParallelWithHooks groupSize (butlast acc @ [pushTest (last acc) test]) rest)"

definition emitBucket :: "nat \<Rightarrow> bucket \<Rightarrow> error + testGroup list" where
  "emitBucket workers withRequireFile =
     (case splitParallelWithHooks
             (parallelWithHooksGroupSize (length (tests (parallelWithHooks withRequireFile))) workers)
             [] (tests (parallelWithHooks withRequireFile)) of
        Inl e \<Rightarrow> Inl e
      | Inr chunks \<Rightarrow>
          Inr ((if tests (general withRequireFile) \<noteq> [] then [general withRequireFile] else [])
               @ map snd (parallel withRequireFile)
               @ chunks))"

fun emitBuckets :: "nat \<Rightarrow> bucket list \<Rightarrow> error + testGroup list" where
  "emitBuckets workers [] = Inr []"
| "emitBuckets workers (b # bs) =
     (case emitBucket workers b of
        Inl e \<Rightarrow> Inl e
      | Inr gs \<Rightarrow> (case emitBuckets workers bs of Inl e \<Rightarrow> Inl e | Inr hs \<Rightarrow> Inr (gs @ hs)))"

definition allBuckets :: "groupsMap \<Rightarrow> bucket list" where
  "allBuckets groups = concat (map (\<lambda>withWorkerHash. map snd (snd withWorkerHash)) groups)"

definition createTestGroups :: "suite list \<Rightarrow> nat \<Rightarrow> error + testGroup list" where
  "createTestGroups projectSuites workers =
     (case placeTests [] (concat (map allTests projectSuites)) of
        Inl e \<Rightarrow> Inl e
      | Inr groups \<Rightarrow> emitBuckets workers (allBuckets groups))"

subsection \<open>The grouper's rules in the words of its specification\<close>

text \<open>The enclosing suites of a suite, itself included, innermost first.\<close>

fun ancestors :: "parentLink \<Rightarrow> parentLink list" where
  "ancestors (ParentLink i p) =
     ParentLink i p # (case p of None \<Rightarrow> [] | Some q \<Rightarrow> ancestors q)"

definition isSerial :: "parentLink \<Rightarrow> bool" where
  "isSerial a = (suite_parallelMode (link_info a) = ModeSerial)"

text \<open>\<^verbatim>\<open>insideParallel\<close>: some ancestor is \<^verbatim>\<open>parallel\<close>.\<close>

definition anyAncestorParallel :: "testCase \<Rightarrow> bool" where
  "anyAncestorParallel test =
     list_ex (\<lambda>a. suite_parallelMode (link_info a) = ModeParallel) (ancestors (test_parent test))"

text \<open>\<^verbatim>\<open>hasAllHooks\<close>: some ancestor carries a \<^verbatim>\<open>beforeAll\<close> or \<^verbatim>\<open>afterAll\<close> hook.\<close>

definition anyAncestorAllHooks :: "testCase \<Rightarrow> bool" where
  "anyAncestorAllHooks test =
     list_ex (\<lambda>a. hasAllHook (link_info a)) (ancestors (test_parent test))"

text \<open>\<^verbatim>\<open>outerMostSerialSuite\<close>: the outermost ancestor whose mode is \<^verbatim>\<open>serial\<close>, if any.\<close>

definition outermostSerialAncestor :: "testCase \<Rightarrow> parentLink option" where
  "outermostSerialAncestor test =
     (case filter isSerial (ancestors (test_parent test)) of
        [] \<Rightarrow> None
      | s # ss \<Rightarrow> Some (last (s # ss)))"

text \<open>The key \<^verbatim>\<open>outerMostSerialSuite ?? test\<close> of the \<^verbatim>\<open>parallel\<close> map.\<close>

definition parallelKey :: "testCase \<Rightarrow> groupKey" where
  "parallelKey test =
     (case outermostSerialAncestor test of Some s \<Rightarrow> KeySuite s | None \<Rightarrow> KeyTest test)"

text \<open>
  Tests with the same worker hash have the same repeat index and the same project: what the
  loader's derivation of the worker hash provides, and what the grouper itself never checks.
\<close>

definition workerHashDetermines :: "testCase list \<Rightarrow> bool" where
  "workerHashDetermines ts =
     list_all (\<lambda>a. list_all (\<lambda>b. test_workerHash a = test_workerHash b \<longrightarrow>
         test_repeatEachIndex a = test_repeatEachIndex b \<and> test_projectId a = test_projectId b) ts) ts"


text \<open>
  The invariant behind group purity: a group stored under \<open>(wh, rf)\<close> carries these two
  values, was created from a processed test with worker hash \<open>wh\<close>, and holds only processed
  tests with worker hash \<open>wh\<close> and file \<open>rf\<close>.
\<close>

definition pureGroup :: "testCase set \<Rightarrow> string \<Rightarrow> string \<Rightarrow> testGroup \<Rightarrow> bool" where
  "pureGroup S wh rf g \<longleftrightarrow>
     workerHash g = wh \<and> requireFile g = rf
     \<and> (\<exists>c\<in>S. test_workerHash c = wh \<and> test_repeatEachIndex c = repeatEachIndex g
                \<and> test_projectId c = projectId g)
     \<and> (\<forall>t\<in>set (tests g). t \<in> S \<and> test_workerHash t = wh \<and> test_requireFile t = rf)"

definition pureBucket :: "testCase set \<Rightarrow> string \<Rightarrow> string \<Rightarrow> bucket \<Rightarrow> bool" where
  "pureBucket S wh rf b \<longleftrightarrow>
     pureGroup S wh rf (general b) \<and> pureGroup S wh rf (parallelWithHooks b)
     \<and> (\<forall>kg\<in>set (parallel b). pureGroup S wh rf (snd kg))"

definition pureGroups :: "testCase set \<Rightarrow> groupsMap \<Rightarrow> bool" where
  "pureGroups S groups \<longleftrightarrow>
     (\<forall>wm\<in>set groups. \<forall>rb\<in>set (snd wm). pureBucket S (fst wm) (fst rb) (snd rb))"

text \<open>
  The three containers of a bucket: the group \<^verbatim>\<open>general\<close>, the group \<^verbatim>\<open>parallelWithHooks\<close>,
  and the entry of the \<^verbatim>\<open>parallel\<close> map under a key.
\<close>

datatype container = InGeneral | InParallelWithHooks | InParallel groupKey

text \<open>The container the specification gives a test, from the test's ancestor chain.\<close>

definition containerOf :: "testCase \<Rightarrow> container" where
  "containerOf test =
     (if \<not> anyAncestorParallel test then InGeneral
      else if anyAncestorAllHooks test \<and> outermostSerialAncestor test = None
        then InParallelWithHooks
      else InParallel (parallelKey test))"

text \<open>The tests of a worker hash and a file, in the order in which they are processed.\<close>

definition testsOfBucket :: "string \<Rightarrow> string \<Rightarrow> testCase list \<Rightarrow> testCase list" where
  "testsOfBucket wh rf ts =
     filter (\<lambda>t. test_workerHash t = wh \<and> test_requireFile t = rf) ts"

text \<open>
  The tests a container of a bucket holds; a key without an entry in the \<^verbatim>\<open>parallel\<close> map
  holds none. \<open>placedTests\<close> reads them in the map \<^verbatim>\<open>groups\<close>, where a worker hash and a file
  without a bucket hold none.
\<close>

fun containerTests :: "bucket \<Rightarrow> container \<Rightarrow> testCase list" where
  "containerTests b InGeneral = tests (general b)"
| "containerTests b InParallelWithHooks = tests (parallelWithHooks b)"
| "containerTests b (InParallel key) =
     (case map_of (parallel b) key of None \<Rightarrow> [] | Some grp \<Rightarrow> tests grp)"

definition placedTests :: "groupsMap \<Rightarrow> string \<Rightarrow> string \<Rightarrow> container \<Rightarrow> testCase list" where
  "placedTests groups wh rf c =
     (case lookupBucket groups wh rf of None \<Rightarrow> [] | Some b \<Rightarrow> containerTests b c)"

subsection \<open>Example suites\<close>

definition exProject :: "runMode \<Rightarrow> fullProject" where
  "exProject r = \<lparr> project_name = ''p'', project_run = r, project_stage = 0 \<rparr>"

definition exInfo :: "nat \<Rightarrow> parallelMode \<Rightarrow> hookType list \<Rightarrow> fullProject option \<Rightarrow> suiteInfo" where
  "exInfo n m hs p = \<lparr> suite_id = n, suite_title = '''', suite_only = False,
     suite_parallelMode = m, suite_hooks = hs, suite_projectConfig = p \<rparr>"

definition exRootLink :: parentLink where
  "exRootLink = ParentLink (exInfo 0 ModeDefault [] None) None"

definition exProjectLink :: parentLink where
  "exProjectLink =
     ParentLink (exInfo 1 ModeDefault [] (Some (exProject RunDefault))) (Some exRootLink)"

definition exFileLink :: parentLink where
  "exFileLink = ParentLink (exInfo 2 ModeDefault [] None) (Some exProjectLink)"

definition exParallelLink :: parentLink where
  "exParallelLink = ParentLink (exInfo 3 ModeParallel [BeforeAll] None) (Some exFileLink)"

definition exSerialLink :: parentLink where
  "exSerialLink = ParentLink (exInfo 4 ModeSerial [] None) (Some exParallelLink)"

definition exTest :: "nat \<Rightarrow> nat \<Rightarrow> parentLink \<Rightarrow> testCase" where
  "exTest n r p = \<lparr> test_id = n, test_title = ''t'', test_only = False,
     test_workerHash = ''w'', test_requireFile = ''a.spec.ts'', test_repeatEachIndex = r,
     test_projectId = ''p'', test_parent = p \<rparr>"

definition exGroup :: "nat \<Rightarrow> runMode \<Rightarrow> testCase list \<Rightarrow> testGroup" where
  "exGroup r m ts = \<lparr> workerHash = ''w'', requireFile = ''a.spec.ts'', repeatEachIndex = r,
     projectId = ''p'', run = m, tests = ts, watchMode = False \<rparr>"

text \<open>A file with a \<^verbatim>\<open>describe.parallel\<close> that has a \<^verbatim>\<open>beforeAll\<close> hook and five tests.\<close>

definition exHooksSuite :: suite where
  "exHooksSuite =
     Suite (exInfo 1 ModeDefault [] (Some (exProject RunDefault)))
       [ESuite (Suite (exInfo 2 ModeDefault [] None)
          [ESuite (Suite (exInfo 3 ModeParallel [BeforeAll] None)
             (map (\<lambda>n. ETest (exTest n 0 exParallelLink)) [10, 11, 12, 13, 14]))])]"


text \<open>A file with two tests that share worker hash and file but not the repeat index.\<close>

definition exMixedSuite :: suite where
  "exMixedSuite =
     Suite (exInfo 1 ModeDefault [] (Some (exProject RunDefault)))
       [ESuite (Suite (exInfo 2 ModeDefault [] None)
          [ETest (exTest 30 0 exFileLink), ETest (exTest 31 1 exFileLink)])]"

text \<open>
  A file with a test of every kind: one at the top of the file; one in a
  \<^verbatim>\<open>describe.parallel\<close> with a \<^verbatim>\<open>beforeAll\<close> hook; two in a \<^verbatim>\<open>describe.serial\<close> inside it; one
  in a \<^verbatim>\<open>describe.parallel\<close> without hooks.
\<close>

definition exPlainParallelLink :: parentLink where
  "exPlainParallelLink = ParentLink (exInfo 5 ModeParallel [] None) (Some exFileLink)"

definition exKindsSuite :: suite where
  "exKindsSuite =
     Suite (exInfo 1 ModeDefault [] (Some (exProject RunDefault)))
       [ESuite (Suite (exInfo 2 ModeDefault [] None)
          [ETest (exTest 70 0 exFileLink),
           ESuite (Suite (exInfo 3 ModeParallel [BeforeAll] None)
             [ETest (exTest 71 0 exParallelLink),
              ESuite (Suite (exInfo 4 ModeSerial [] None)
                [ETest (exTest 72 0 exSerialLink), ETest (exTest 73 0 exSerialLink)])]),
           ESuite (Suite (exInfo 5 ModeParallel [] None)
             [ETest (exTest 74 0 exPlainParallelLink)])])]"

lemmas ex_defs = exProject_def exInfo_def exRootLink_def exProjectLink_def exFileLink_def
  exParallelLink_def exSerialLink_def exTest_def exGroup_def

lemmas grouper_defs = createTestGroups_def placeTest_def placeInBucket_def newBucket_def
  createGroup_def pushTest_def hasAllHook_def allBuckets_def emitBucket_def
  parallelWithHooksGroupSize_def lookupBucket_def

section \<open>Filtering a suite tree\<close>

text \<open>
  \<^verbatim>\<open>filterSuiteWithOnlySemantics(suite, suiteFilter, testFilter)\<close> mutates the suite and
  returns whether anything matched. \<open>visitEntriesWithOnlySemantics\<close> gives, for each entry
  in order, whether it is among \<^verbatim>\<open>onlySuites\<close> or \<^verbatim>\<open>onlyTests\<close>, and the entry as the
  recursive call leaves it (the source tests \<^verbatim>\<open>suiteFilter(child)\<close> after the call on the
  child). The set \<^verbatim>\<open>onlyEntries\<close> is not empty exactly when some entry is kept.
\<close>

fun filterSuiteWithOnlySemantics :: "(suite \<Rightarrow> bool) \<Rightarrow> (testCase \<Rightarrow> bool) \<Rightarrow> suite \<Rightarrow> bool \<times> suite"
  and visitEntriesWithOnlySemantics ::
    "(suite \<Rightarrow> bool) \<Rightarrow> (testCase \<Rightarrow> bool) \<Rightarrow> entry list \<Rightarrow> (bool \<times> entry) list" where
  "filterSuiteWithOnlySemantics suiteFilter testFilter (Suite i es) =
     (let visited = visitEntriesWithOnlySemantics suiteFilter testFilter es;
          onlyEntries = map snd (filter fst visited)
      in if onlyEntries \<noteq> [] then (True, Suite i onlyEntries)
         else (False, Suite i (map snd visited)))"
| "visitEntriesWithOnlySemantics suiteFilter testFilter [] = []"
| "visitEntriesWithOnlySemantics suiteFilter testFilter (ESuite child # es) =
     (case filterSuiteWithOnlySemantics suiteFilter testFilter child of
        (r, child') \<Rightarrow>
          (r \<or> suiteFilter child', ESuite child')
            # visitEntriesWithOnlySemantics suiteFilter testFilter es)"
| "visitEntriesWithOnlySemantics suiteFilter testFilter (ETest t # es) =
     (testFilter t, ETest t) # visitEntriesWithOnlySemantics suiteFilter testFilter es"

text \<open>
  \<^verbatim>\<open>filterSuite(suite, suiteFilter, testFilter)\<close>: child suites are never removed; a child
  that \<^verbatim>\<open>suiteFilter\<close> accepts is kept whole, any other is filtered in turn; the tests are
  filtered by \<^verbatim>\<open>testFilter\<close>.
\<close>

fun filterSuite :: "(suite \<Rightarrow> bool) \<Rightarrow> (testCase \<Rightarrow> bool) \<Rightarrow> suite \<Rightarrow> suite"
  and filterSuiteEntries :: "(suite \<Rightarrow> bool) \<Rightarrow> (testCase \<Rightarrow> bool) \<Rightarrow> entry list \<Rightarrow> entry list" where
  "filterSuite suiteFilter testFilter (Suite i es) =
     Suite i (filterSuiteEntries suiteFilter testFilter es)"
| "filterSuiteEntries suiteFilter testFilter [] = []"
| "filterSuiteEntries suiteFilter testFilter (ESuite child # es) =
     ESuite (if suiteFilter child then child else filterSuite suiteFilter testFilter child)
       # filterSuiteEntries suiteFilter testFilter es"
| "filterSuiteEntries suiteFilter testFilter (ETest t # es) =
     (if testFilter t then ETest t # filterSuiteEntries suiteFilter testFilter es
      else filterSuiteEntries suiteFilter testFilter es)"

text \<open>\<^verbatim>\<open>filterOnly(suite)\<close>.\<close>

definition filterOnly :: "suite \<Rightarrow> bool \<times> suite" where
  "filterOnly s = filterSuiteWithOnlySemantics (\<lambda>c. suite_only (info c)) test_only s"

text \<open>The identity of an entry, and all suites of a tree (the suite itself first).\<close>

fun entryId :: "entry \<Rightarrow> nat + nat" where
  "entryId (ESuite c) = Inl (suite_id (info c))"
| "entryId (ETest t) = Inr (test_id t)"

fun allSuites :: "suite \<Rightarrow> suite list"
  and allSuitesOfEntries :: "entry list \<Rightarrow> suite list" where
  "allSuites (Suite i es) = Suite i es # allSuitesOfEntries es"
| "allSuitesOfEntries [] = []"
| "allSuitesOfEntries (ESuite c # es) = allSuites c @ allSuitesOfEntries es"
| "allSuitesOfEntries (ETest t # es) = allSuitesOfEntries es"

text \<open>
  The entries of \<open>s'\<close> are, by identity and in order, a subsequence of the entries of the
  suite \<open>s\<close> it comes from.
\<close>

definition entriesSubseq :: "suite \<Rightarrow> suite \<Rightarrow> bool" where
  "entriesSubseq s s' \<longleftrightarrow>
     info s = info s' \<and> subseq (map entryId (entries s')) (map entryId (entries s))"

subsection \<open>An example suite with focused tests\<close>

text \<open>
  A file suite with a focused test, a plain test, a \<^verbatim>\<open>describe\<close> with a focused and a plain
  test, and a \<^verbatim>\<open>describe\<close> with one plain test.
\<close>

definition exOnlySuite :: suite where
  "exOnlySuite =
     Suite (exInfo 2 ModeDefault [] None)
       [ETest ((exTest 41 0 exFileLink)\<lparr> test_only := True \<rparr>),
        ETest (exTest 42 0 exFileLink),
        ESuite (Suite (exInfo 5 ModeDefault [] None)
          [ETest (exTest 43 0 exFileLink),
           ETest ((exTest 44 0 exFileLink)\<lparr> test_only := True \<rparr>)]),
        ESuite (Suite (exInfo 6 ModeDefault [] None) [ETest (exTest 45 0 exFileLink)])]"

section \<open>The shard filter: \<^verbatim>\<open>Runner._filterForCurrentShard\<close>\<close>

record shard =
  shard_current :: int
  shard_total :: int

text \<open>
  \<^verbatim>\<open>projectSuite.project()\<close> for a child of the root suite: the child's own project or else
  the root's (the root has no parent).
\<close>

definition suiteProject :: "suite \<Rightarrow> suite \<Rightarrow> fullProject option" where
  "suiteProject rootSuite projectSuite =
     (case suite_projectConfig (info projectSuite) of
        Some p \<Rightarrow> Some p
      | None \<Rightarrow> suite_projectConfig (info rootSuite))"

text \<open>
  The loop that sums \<^verbatim>\<open>shardableTotal\<close>. \<^verbatim>\<open>projectSuite.project()!.run\<close> throws a
  \<^verbatim>\<open>TypeError\<close> when there is no project.
\<close>

fun countShardable :: "suite \<Rightarrow> nat \<Rightarrow> suite list \<Rightarrow> error + nat" where
  "countShardable rootSuite shardableTotal [] = Inr shardableTotal"
| "countShardable rootSuite shardableTotal (projectSuite # rest) =
     (case suiteProject rootSuite projectSuite of
        None \<Rightarrow> Inl TypeError
      | Some p \<Rightarrow>
          countShardable rootSuite
            (if project_run p \<noteq> RunAlways then shardableTotal + length (allTests projectSuite)
             else shardableTotal) rest)"

text \<open>
  \<^verbatim>\<open>from\<close> and \<^verbatim>\<open>to\<close>. The numbers are integers; \<^verbatim>\<open>Math.floor\<close> of the quotient is
  \<open>div\<close>. For \<^verbatim>\<open>total = 0\<close> the quotient is \<^verbatim>\<open>Infinity\<close> or \<^verbatim>\<open>NaN\<close>, \<^verbatim>\<open>extraOne\<close>,
  \<^verbatim>\<open>from\<close> and \<^verbatim>\<open>to\<close> are \<^verbatim>\<open>NaN\<close> and every comparison with them is false: \<open>None\<close>.
\<close>

definition shardBounds :: "shard \<Rightarrow> nat \<Rightarrow> (int \<times> int) option" where
  "shardBounds shard shardableTotal =
     (if shard_total shard = 0 then None
      else
        let shardSize = int shardableTotal div shard_total shard;
            extraOne = int shardableTotal - shardSize * shard_total shard;
            currentShard = shard_current shard - 1;
            from = shardSize * currentShard + min extraOne currentShard;
            to = from + shardSize + (if currentShard < extraOne then 1 else 0)
        in Some (from, to))"

definition inBounds :: "(int \<times> int) option \<Rightarrow> nat \<Rightarrow> bool" where
  "inBounds bounds current =
     (case bounds of None \<Rightarrow> False | Some (from, to) \<Rightarrow> from \<le> int current \<and> int current < to)"

text \<open>The inner loop over the groups of one stage: the counter after it, and \<^verbatim>\<open>shardedStage\<close>.\<close>

fun shardStage :: "(int \<times> int) option \<Rightarrow> nat \<Rightarrow> testGroup list \<Rightarrow> nat \<times> testGroup list" where
  "shardStage bounds current [] = (current, [])"
| "shardStage bounds current (grp # rest) =
     (if run grp = RunAlways then
        (case shardStage bounds current rest of (c, shardedStage) \<Rightarrow> (c, grp # shardedStage))
      else
        (case shardStage bounds (current + length (tests grp)) rest of
           (c, shardedStage) \<Rightarrow>
             (c, if inBounds bounds current then grp # shardedStage else shardedStage)))"

text \<open>The outer loop over the stages: \<^verbatim>\<open>shardConcurrentTestGroups\<close>.\<close>

fun shardStages :: "(int \<times> int) option \<Rightarrow> nat \<Rightarrow> testGroup list list \<Rightarrow> testGroup list list" where
  "shardStages bounds current [] = []"
| "shardStages bounds current (stage # rest) =
     (case shardStage bounds current stage of
        (c, shardedStage) \<Rightarrow>
          (if shardedStage \<noteq> [] then shardedStage # shardStages bounds c rest
           else shardStages bounds c rest))"

text \<open>
  The whole method: the root suite and the stages as it leaves them. \<^verbatim>\<open>shardTests\<close> is the
  set of the tests of the groups that were kept.
\<close>

definition filterForCurrentShard ::
    "shard option \<Rightarrow> suite \<Rightarrow> testGroup list list \<Rightarrow> error + suite \<times> testGroup list list" where
  "filterForCurrentShard shardOption rootSuite concurrentTestGroups =
     (case shardOption of
        None \<Rightarrow> Inr (rootSuite, concurrentTestGroups)
      | Some shard \<Rightarrow>
          (case countShardable rootSuite 0 (suites rootSuite) of
             Inl e \<Rightarrow> Inl e
           | Inr shardableTotal \<Rightarrow>
               (let shardConcurrentTestGroups =
                      shardStages (shardBounds shard shardableTotal) 0 concurrentTestGroups;
                    shardTests = concat (map tests (concat shardConcurrentTestGroups))
                in Inr (snd (filterSuiteWithOnlySemantics (\<lambda>c. False)
                               (\<lambda>test. test \<in> set shardTests) rootSuite),
                        shardConcurrentTestGroups))))"

subsection \<open>The shard filter in the words of its specification\<close>

text \<open>The number of shardable tests in a list of groups: the counter after these groups.\<close>

definition shardableSeen :: "testGroup list \<Rightarrow> nat" where
  "shardableSeen gs = sum_list (map (\<lambda>g. length (tests g)) (filter (\<lambda>g. run g \<noteq> RunAlways) gs))"

text \<open>
  The groups of a stage that are kept, given the groups \<open>before\<close> it: a group is kept when it
  is \<^verbatim>\<open>always\<close>, or when the number of shardable tests seen before it lies in \<open>[from, to)\<close>.
\<close>

definition keptOfStage :: "int \<Rightarrow> int \<Rightarrow> testGroup list \<Rightarrow> testGroup list \<Rightarrow> testGroup list" where
  "keptOfStage from to before stage =
     map (\<lambda>j. stage ! j)
       (filter (\<lambda>j. run (stage ! j) = RunAlways
                  \<or> (from \<le> int (shardableSeen (before @ take j stage))
                     \<and> int (shardableSeen (before @ take j stage)) < to))
          [0..<length stage])"

text \<open>The tests of the shardable groups that shard \<open>current\<close> of \<open>totalShards\<close> keeps.\<close>

definition shardableTestsOfShard :: "int \<Rightarrow> int \<Rightarrow> nat \<Rightarrow> testGroup list list \<Rightarrow> testCase list" where
  "shardableTestsOfShard current totalShards shardableTotal concurrentTestGroups =
     concat (map tests (filter (\<lambda>g. run g \<noteq> RunAlways)
       (concat (shardStages
          (shardBounds \<lparr> shard_current = current, shard_total = totalShards \<rparr> shardableTotal)
          0 concurrentTestGroups))))"

text \<open>
  The first test index of the 0-based shard \<open>k\<close>: \<open>from\<close> of shard \<open>k\<close>, and \<open>to\<close> of the
  shard before it.
\<close>

definition shardStart :: "nat \<Rightarrow> nat \<Rightarrow> nat \<Rightarrow> int" where
  "shardStart shardableTotal totalShards k =
     (int shardableTotal div int totalShards) * int k
     + min (int shardableTotal - (int shardableTotal div int totalShards) * int totalShards) (int k)"

text \<open>The tests of the shardable groups that the inner loop keeps of a list of groups.\<close>

definition shardableTestsKept :: "(int \<times> int) option \<Rightarrow> nat \<Rightarrow> testGroup list \<Rightarrow> testCase list" where
  "shardableTestsKept bounds current gs =
     concat (map tests (filter (\<lambda>g. run g \<noteq> RunAlways) (snd (shardStage bounds current gs))))"

text \<open>A suite tree without its suites that contain no test.\<close>

fun pruneEmptySuites :: "suite \<Rightarrow> suite"
  and pruneEmptyEntries :: "entry list \<Rightarrow> entry list" where
  "pruneEmptySuites (Suite i es) = Suite i (pruneEmptyEntries es)"
| "pruneEmptyEntries [] = []"
| "pruneEmptyEntries (ESuite c # es) =
     (if allTests c = [] then pruneEmptyEntries es
      else ESuite (pruneEmptySuites c) # pruneEmptyEntries es)"
| "pruneEmptyEntries (ETest t # es) = ETest t # pruneEmptyEntries es"

subsection \<open>Example shards\<close>

text \<open>
  Ten shardable tests of a fully parallel project, each a group of its own, and the root
  suite they come from.
\<close>

definition exFPFileLink :: parentLink where
  "exFPFileLink =
     ParentLink (exInfo 2 ModeDefault [] None)
       (Some (ParentLink (exInfo 1 ModeParallel [] (Some (exProject RunDefault)))
          (Some exRootLink)))"

definition exShardTest :: "nat \<Rightarrow> testCase" where
  "exShardTest n = exTest n 0 exFPFileLink"

definition exShardRootOf :: "nat list \<Rightarrow> suite" where
  "exShardRootOf ns =
     Suite (exInfo 0 ModeDefault [] None)
       [ESuite (Suite (exInfo 1 ModeParallel [] (Some (exProject RunDefault)))
          [ESuite (Suite (exInfo 2 ModeDefault [] None) (map (\<lambda>n. ETest (exShardTest n)) ns))])]"

definition exShardStageOf :: "nat list \<Rightarrow> testGroup list" where
  "exShardStageOf ns = map (\<lambda>n. exGroup 0 RunDefault [exShardTest n]) ns"

text \<open>
  A root suite with a project of one test and, in a later stage, a project without tests;
  the same root without the second project.
\<close>

definition exTwoStageRoot :: "bool \<Rightarrow> suite" where
  "exTwoStageRoot withEmptyProject =
     Suite (exInfo 0 ModeDefault [] None)
       (ESuite (Suite (exInfo 1 ModeDefault [] (Some (exProject RunDefault)))
          [ESuite (Suite (exInfo 2 ModeDefault [] None) [ETest (exTest 50 0 exFileLink)])])
        # (if withEmptyProject
           then [ESuite (Suite (exInfo 7 ModeDefault []
                   (Some \<lparr> project_name = ''q'', project_run = RunDefault, project_stage = 1 \<rparr>)) [])]
           else []))"

section \<open>The stage dispatcher: \<^verbatim>\<open>Runner._run\<close> and \<^verbatim>\<open>Runner.runAllTests\<close>\<close>


datatype testStatus = TestPassed | TestFailed | TestTimedOut | TestSkipped | TestInterrupted










subsection \<open>\<^verbatim>\<open>_skipTestsNotMarkedAsRunAlways\<close>\<close>



subsection \<open>The loop over the stages\<close>







subsection \<open>Global setup and teardown\<close>





subsection \<open>\<^verbatim>\<open>_run\<close>, from the report of the begin on, and \<^verbatim>\<open>runAllTests\<close>\<close>








subsection \<open>Runs in which nothing but the dispatcher fails\<close>







subsection \<open>Example runs\<close>









section \<open>The file collector: \<^verbatim>\<open>collectFiles\<close>\<close>

datatype ioError = IOError

datatype ignoreStatus = Ignored | Included | IgnoredButRecurse

text \<open>
  A file system as \<^verbatim>\<open>collectFiles\<close> sees it: a file with its text, a directory with its
  entries (name and node) in the order \<^verbatim>\<open>entries.sort((a, b) => a.name.localeCompare(b.name))\<close>
  leaves them in, a file or a directory that cannot be read, or anything else (neither
  \<^verbatim>\<open>isFile()\<close> nor \<^verbatim>\<open>isDirectory()\<close>).
\<close>

datatype fsNode =
    File string
  | UnreadableFile
  | Dir "(string \<times> fsNode) list"
  | UnreadableDir
  | Other

fun isFile :: "fsNode \<Rightarrow> bool" where
  "isFile (File content) = True"
| "isFile UnreadableFile = True"
| "isFile n = False"

fun isDirectory :: "fsNode \<Rightarrow> bool" where
  "isDirectory (Dir es) = True"
| "isDirectory UnreadableDir = True"
| "isDirectory n = False"

text \<open>A rule of a \<^verbatim>\<open>.gitignore\<close>: the \<^verbatim>\<open>Minimatch\<close> object with the directory it was read in.\<close>

record rule =
  rule_dir :: string
  rule_negate :: bool
  rule_pattern :: string

text \<open>
  What the file collector gets from \<^verbatim>\<open>fs\<close>, \<^verbatim>\<open>path\<close>, the string methods and \<^verbatim>\<open>minimatch\<close>:
  the node at a path (\<open>None\<close> when \<^verbatim>\<open>fs.existsSync\<close> is false), \<^verbatim>\<open>path.join\<close>,
  \<^verbatim>\<open>path.relative\<close>, \<^verbatim>\<open>split(/\r?\n/)\<close>, \<^verbatim>\<open>trim\<close>, and of a pattern whether it is a comment,
  whether it is negated, and whether it matches a path (in full or partially).
\<close>

record fsEnv =
  lookupPath :: "string \<Rightarrow> fsNode option"
  pathJoin :: "string \<Rightarrow> string \<Rightarrow> string"
  pathRelative :: "string \<Rightarrow> string \<Rightarrow> string"
  splitLines :: "string \<Rightarrow> string list"
  trim :: "string \<Rightarrow> string"
  isComment :: "string \<Rightarrow> bool"
  isNegated :: "string \<Rightarrow> bool"
  matches :: "string \<Rightarrow> string \<Rightarrow> bool \<Rightarrow> bool"

text \<open>\<^verbatim>\<open>checkIgnores\<close>: the loop over the rules, with the variable \<^verbatim>\<open>status\<close>.\<close>

fun checkIgnores :: "fsEnv \<Rightarrow> string \<Rightarrow> bool \<Rightarrow> ignoreStatus \<Rightarrow> rule list \<Rightarrow> ignoreStatus" where
  "checkIgnores fe entryPath isDir status [] = status"
| "checkIgnores fe entryPath isDir status (r # rules) =
     (let ruleIncludes = rule_negate r
      in if (status = Included) = ruleIncludes then checkIgnores fe entryPath isDir status rules
         else
           (let relative = pathRelative fe (rule_dir r) entryPath;
                match = matches fe (rule_pattern r)
            in if match (''/'' @ relative) False \<or> match relative False then
                 checkIgnores fe entryPath isDir (if ruleIncludes then Included else Ignored) rules
               else if isDir \<and> (match (''/'' @ relative @ ''/'') False
                                  \<or> match (relative @ ''/'') False) then
                 checkIgnores fe entryPath isDir (if ruleIncludes then Included else Ignored) rules
               else if isDir \<and> ruleIncludes
                       \<and> (match (''/'' @ relative) True \<or> match relative True) then
                 checkIgnores fe entryPath isDir IgnoredButRecurse rules
               else checkIgnores fe entryPath isDir status rules))"

text \<open>The rules of the text of a \<^verbatim>\<open>.gitignore\<close> read in \<open>dir\<close>.\<close>

definition newRules :: "fsEnv \<Rightarrow> string \<Rightarrow> string \<Rightarrow> rule list" where
  "newRules fe dir content =
     map (\<lambda>s. \<lparr> rule_dir = dir, rule_negate = isNegated fe s, rule_pattern = s \<rparr>)
       (filter (\<lambda>s. s \<noteq> [] \<and> \<not> isComment fe s) (map (trim fe) (splitLines fe content)))"

text \<open>
  \<^verbatim>\<open>visit(dir, rules, status)\<close> on the node of \<open>dir\<close>, and its loop over the entries. The
  files are given in the order the source pushes them. Reading a directory or a file that
  cannot be read rejects.
\<close>

fun visit :: "fsEnv \<Rightarrow> bool \<Rightarrow> string \<Rightarrow> rule list \<Rightarrow> ignoreStatus \<Rightarrow> fsNode
    \<Rightarrow> ioError + string list"
  and visitEntries :: "fsEnv \<Rightarrow> bool \<Rightarrow> string \<Rightarrow> rule list \<Rightarrow> ignoreStatus
    \<Rightarrow> (string \<times> fsNode) list \<Rightarrow> ioError + string list" where
  "visit fe respectGitIgnore dir rules status (Dir es) =
     (case (if respectGitIgnore then
              (case find (\<lambda>e. isFile (snd e) \<and> fst e = ''.gitignore'') es of
                 None \<Rightarrow> Inr rules
               | Some (name, File content) \<Rightarrow> Inr (rules @ newRules fe dir content)
               | Some (name, node) \<Rightarrow> Inl IOError)
            else Inr rules) of
        Inl err \<Rightarrow> Inl err
      | Inr rules' \<Rightarrow> visitEntries fe respectGitIgnore dir rules' status es)"
| "visit fe respectGitIgnore dir rules status node = Inl IOError"
| "visitEntries fe respectGitIgnore dir rules status [] = Inr []"
| "visitEntries fe respectGitIgnore dir rules status ((name, node) # rest) =
     (if name = ''.'' \<or> name = ''..'' then
        visitEntries fe respectGitIgnore dir rules status rest
      else if isFile node \<and> name = ''.gitignore'' then
        visitEntries fe respectGitIgnore dir rules status rest
      else if isDirectory node \<and> name = ''node_modules'' then
        visitEntries fe respectGitIgnore dir rules status rest
      else
        (let entryPath = pathJoin fe dir name;
             entryStatus = checkIgnores fe entryPath (isDirectory node) status rules
         in if isDirectory node \<and> entryStatus \<noteq> Ignored then
              (case visit fe respectGitIgnore entryPath rules entryStatus node of
                 Inl err \<Rightarrow> Inl err
               | Inr files \<Rightarrow>
                   (case visitEntries fe respectGitIgnore dir rules status rest of
                      Inl err \<Rightarrow> Inl err
                    | Inr others \<Rightarrow> Inr (files @ others)))
            else if isFile node \<and> entryStatus = Included then
              (case visitEntries fe respectGitIgnore dir rules status rest of
                 Inl err \<Rightarrow> Inl err
               | Inr others \<Rightarrow> Inr (entryPath # others))
            else visitEntries fe respectGitIgnore dir rules status rest))"

definition collectFiles :: "fsEnv \<Rightarrow> string \<Rightarrow> bool \<Rightarrow> ioError + string list" where
  "collectFiles fe testDir respectGitIgnore =
     (case lookupPath fe testDir of
        None \<Rightarrow> Inr []
      | Some node \<Rightarrow>
          if \<not> isDirectory node then Inr []
          else visit fe respectGitIgnore testDir [] Included node)"

text \<open>
  A file system with the file \<^verbatim>\<open>/p/a.spec.ts\<close> in the directory \<^verbatim>\<open>/p\<close>, paths joined with
  \<^verbatim>\<open>/\<close>, and a matcher that matches a pattern against the equal path only.
\<close>

definition exFsEnv :: fsEnv where
  "exFsEnv =
     \<lparr> lookupPath = (\<lambda>p. if p = ''/p'' then Some (Dir [(''a.spec.ts'', File ''test'')])
                          else if p = ''/p/a.spec.ts'' then Some (File ''test'')
                          else None),
       pathJoin = (\<lambda>a b. a @ ''/'' @ b),
       pathRelative = (\<lambda>a b. drop (length a + 1) b),
       splitLines = (\<lambda>s. [s]),
       trim = (\<lambda>s. s),
       isComment = (\<lambda>s. take 1 s = ''#''),
       isNegated = (\<lambda>s. take 1 s = ''!''),
       matches = (\<lambda>pattern path partial. pattern = path) \<rparr>"

section \<open>Properties of the test grouper\<close>

subsection \<open>Placement of a test\<close>

lemma walkParents_chain:
  "walkParents (Some p) (a, b, c) =
     (a \<or> list_ex (\<lambda>a. suite_parallelMode (link_info a) = ModeParallel) (ancestors p),
      (case filter isSerial (ancestors p) of [] \<Rightarrow> b | s # ss \<Rightarrow> Some (last (s # ss))),
      c \<or> list_ex (\<lambda>a. hasAllHook (link_info a)) (ancestors p))"
proof (induction p arbitrary: a b c)
  case (ParentLink i q)
  show ?case
  proof (cases q)
    case None
    then show ?thesis by (simp add: isSerial_def)
  next
    case (Some r)
    have "r \<in> set_option q" using Some by simp
    note IH = ParentLink.IH[OF this]
    show ?thesis using Some
      by (simp add: IH isSerial_def split: list.splits)
  qed
qed

lemma walkParents_spec:
  "walkParents (Some (test_parent test)) (False, None, False) =
     (anyAncestorParallel test, outermostSerialAncestor test, anyAncestorAllHooks test)"
  by (simp add: walkParents_chain anyAncestorParallel_def outermostSerialAncestor_def
      anyAncestorAllHooks_def)

lemma lookupBucket_update:
  "lookupBucket (AList.update wh (AList.update rf b m) groups) wh' rf' =
     (if wh' = wh then (if rf' = rf then Some b else map_of m rf') else lookupBucket groups wh' rf')"
  by (auto simp: lookupBucket_def update_conv' split: option.splits)

lemma placeInBucket_general:
  assumes "placeInBucket b0 test = Inr b" "\<not> anyAncestorParallel test"
  shows "general b = pushTest (general b0) test \<and> parallel b = parallel b0
         \<and> parallelWithHooks b = parallelWithHooks b0"
  using assms by (auto simp: placeInBucket_def walkParents_spec)

lemma placeInBucket_hooks:
  assumes "placeInBucket b0 test = Inr b" "anyAncestorParallel test"
    "anyAncestorAllHooks test" "outermostSerialAncestor test = None"
  shows "parallelWithHooks b = pushTest (parallelWithHooks b0) test \<and> general b = general b0
         \<and> parallel b = parallel b0"
  using assms by (auto simp: placeInBucket_def walkParents_spec)

lemma placeInBucket_parallel:
  assumes "placeInBucket b0 test = Inr b" "anyAncestorParallel test"
    "\<not> (anyAncestorAllHooks test \<and> outermostSerialAncestor test = None)"
  shows "general b = general b0 \<and> parallelWithHooks b = parallelWithHooks b0
         \<and> (\<exists>g. map_of (parallel b) (parallelKey test) = Some g
                \<and> tests g = (case map_of (parallel b0) (parallelKey test) of
                               Some g0 \<Rightarrow> tests g0 | None \<Rightarrow> []) @ [test])
         \<and> (\<forall>k. k \<noteq> parallelKey test \<longrightarrow> map_of (parallel b) k = map_of (parallel b0) k)"
  using assms
  by (auto simp: placeInBucket_def walkParents_spec parallelKey_def update_conv' pushTest_def
      createGroup_def split: option.splits sum.splits if_splits)

lemma placeTest_bucket:
  assumes "placeTest groups test = Inr groups'"
  shows "\<exists>b0 b. (lookupBucket groups (test_workerHash test) (test_requireFile test) = Some b0
                 \<or> lookupBucket groups (test_workerHash test) (test_requireFile test) = None
                    \<and> newBucket test = Inr b0)
              \<and> placeInBucket b0 test = Inr b
              \<and> lookupBucket groups' (test_workerHash test) (test_requireFile test) = Some b
              \<and> (\<forall>wh rf. (wh, rf) \<noteq> (test_workerHash test, test_requireFile test)
                     \<longrightarrow> lookupBucket groups' wh rf = lookupBucket groups wh rf)"
proof -
  define m where "m = (case map_of groups (test_workerHash test) of Some m \<Rightarrow> m | None \<Rightarrow> [])"
  have lk: "lookupBucket groups (test_workerHash test) rf = map_of m rf" for rf
    by (simp add: lookupBucket_def m_def split: option.splits)
  from assms obtain b0 b where
    b0: "(case map_of m (test_requireFile test) of Some b \<Rightarrow> Inr b | None \<Rightarrow> newBucket test) = Inr b0"
    and b: "placeInBucket b0 test = Inr b"
    and g: "groups' = AList.update (test_workerHash test) (AList.update (test_requireFile test) b m) groups"
    by (auto simp: placeTest_def Let_def m_def split: sum.splits)
  have "lookupBucket groups (test_workerHash test) (test_requireFile test) = Some b0
      \<or> lookupBucket groups (test_workerHash test) (test_requireFile test) = None \<and> newBucket test = Inr b0"
    using b0 by (auto simp: lk split: option.splits)
  moreover have "lookupBucket groups' (test_workerHash test) (test_requireFile test) = Some b"
    unfolding g by (simp add: lookupBucket_update)
  moreover have "\<forall>wh rf. (wh, rf) \<noteq> (test_workerHash test, test_requireFile test)
                     \<longrightarrow> lookupBucket groups' wh rf = lookupBucket groups wh rf"
    unfolding g by (simp add: lookupBucket_update lk)
  ultimately show ?thesis using b by blast
qed

lemma containerTests_newBucket:
  assumes "newBucket test = Inr b0"
  shows "containerTests b0 c = []"
  using assms
  by (cases c) (auto simp: newBucket_def createGroup_def split: sum.splits option.splits)

lemma placeInBucket_container:
  assumes "placeInBucket b0 test = Inr b"
  shows "containerTests b c = containerTests b0 c @ (if containerOf test = c then [test] else [])"
proof -
  consider (g) "\<not> anyAncestorParallel test"
    | (h) "anyAncestorParallel test" "anyAncestorAllHooks test"
        "outermostSerialAncestor test = None"
    | (p) "anyAncestorParallel test"
        "\<not> (anyAncestorAllHooks test \<and> outermostSerialAncestor test = None)"
    by auto
  then show ?thesis
  proof cases
    case g
    from placeInBucket_general[OF assms g] g show ?thesis
      by (cases c) (auto simp: containerOf_def pushTest_def)
  next
    case h
    from placeInBucket_hooks[OF assms h] h show ?thesis
      by (cases c) (auto simp: containerOf_def pushTest_def)
  next
    case p
    from placeInBucket_parallel[OF assms p] obtain grp where
      1: "general b = general b0" "parallelWithHooks b = parallelWithHooks b0"
      and 2: "map_of (parallel b) (parallelKey test) = Some grp"
        "tests grp = (case map_of (parallel b0) (parallelKey test) of
                       Some g0 \<Rightarrow> tests g0 | None \<Rightarrow> []) @ [test]"
      and 3: "\<forall>k. k \<noteq> parallelKey test \<longrightarrow> map_of (parallel b) k = map_of (parallel b0) k"
      by blast
    have co: "containerOf test = InParallel (parallelKey test)"
      using p by (auto simp: containerOf_def)
    show ?thesis
    proof (cases c)
      case InGeneral
      then show ?thesis using 1 co by simp
    next
      case InParallelWithHooks
      then show ?thesis using 1 co by simp
    next
      case (InParallel k)
      show ?thesis
      proof (cases "k = parallelKey test")
        case True
        then show ?thesis using InParallel 2 co by simp
      next
        case False
        then show ?thesis using InParallel 3 co by simp
      qed
    qed
  qed
qed

lemma placeTest_placedTests:
  assumes "placeTest groups test = Inr groups'"
  shows "placedTests groups' wh rf c =
           placedTests groups wh rf c
           @ (if test_workerHash test = wh \<and> test_requireFile test = rf \<and> containerOf test = c
              then [test] else [])"
proof -
  from placeTest_bucket[OF assms] obtain b0 b where
    1: "lookupBucket groups (test_workerHash test) (test_requireFile test) = Some b0
        \<or> lookupBucket groups (test_workerHash test) (test_requireFile test) = None
           \<and> newBucket test = Inr b0"
    and 2: "placeInBucket b0 test = Inr b"
    and 3: "lookupBucket groups' (test_workerHash test) (test_requireFile test) = Some b"
    and 4: "\<forall>wh rf. (wh, rf) \<noteq> (test_workerHash test, test_requireFile test)
              \<longrightarrow> lookupBucket groups' wh rf = lookupBucket groups wh rf"
    by blast
  show ?thesis
  proof (cases "(wh, rf) = (test_workerHash test, test_requireFile test)")
    case False
    with 4 have "lookupBucket groups' wh rf = lookupBucket groups wh rf" by blast
    with False show ?thesis by (auto simp: placedTests_def)
  next
    case True
    have old: "placedTests groups wh rf c = containerTests b0 c"
      using 1 True by (auto simp: placedTests_def containerTests_newBucket)
    have new: "placedTests groups' wh rf c = containerTests b c"
      using 3 True by (simp add: placedTests_def)
    show ?thesis
      unfolding old new placeInBucket_container[OF 2] using True by simp
  qed
qed

lemma placeTests_placedTests:
  assumes "placeTests groups ts = Inr groups'"
  shows "placedTests groups' wh rf c =
           placedTests groups wh rf c
           @ filter (\<lambda>t. containerOf t = c) (testsOfBucket wh rf ts)"
  using assms
proof (induction ts arbitrary: groups)
  case Nil
  then show ?case by (simp add: testsOfBucket_def)
next
  case (Cons test rest)
  from Cons.prems obtain g1 where
    1: "placeTest groups test = Inr g1" and 2: "placeTests g1 rest = Inr groups'"
    by (auto split: sum.splits)
  show ?case
    unfolding Cons.IH[OF 2] placeTest_placedTests[OF 1]
    by (simp add: testsOfBucket_def)
qed

text \<open>
  C1. When the grouper returns, it has processed the tests of the project suites into a map
  \<^verbatim>\<open>groups\<close> from which its result is emitted, and in that map every container of every bucket
  holds exactly the processed tests with the bucket's worker hash and file to which the
  ancestor chain gives this container, in the order of processing: \<open>general\<close> when no ancestor
  is parallel; else \<open>parallelWithHooks\<close> when some ancestor has a \<open>beforeAll\<close> or \<open>afterAll\<close>
  hook and no ancestor is serial; else the entry of the \<open>parallel\<close> map under the outermost
  serial ancestor, or under the test itself when there is none. So each processed test is in
  that one container of its bucket, as often as it was processed, and in no other.
\<close>

theorem createTestGroups_one_container:
  assumes "createTestGroups projectSuites workers = Inr result"
  shows "\<exists>groups.
      placeTests [] (concat (map allTests projectSuites)) = Inr groups
    \<and> emitBuckets workers (allBuckets groups) = Inr result
    \<and> (\<forall>wh rf c. placedTests groups wh rf c =
          filter (\<lambda>t. containerOf t = c)
            (testsOfBucket wh rf (concat (map allTests projectSuites))))"
proof -
  from assms obtain groups where
    1: "placeTests [] (concat (map allTests projectSuites)) = Inr groups"
    and 2: "emitBuckets workers (allBuckets groups) = Inr result"
    by (auto simp: createTestGroups_def split: sum.splits)
  have "placedTests [] wh rf c = []" for wh rf c
    by (simp add: placedTests_def lookupBucket_def)
  then have "\<forall>wh rf c. placedTests groups wh rf c =
          filter (\<lambda>t. containerOf t = c)
            (testsOfBucket wh rf (concat (map allTests projectSuites)))"
    using placeTests_placedTests[OF 1] by simp
  with 1 2 show ?thesis by blast
qed

theorem createTestGroups_one_container_witness:
  "createTestGroups [exKindsSuite] 2
     = Inr [exGroup 0 RunDefault [exTest 70 0 exFileLink],
            exGroup 0 RunDefault [exTest 72 0 exSerialLink, exTest 73 0 exSerialLink],
            exGroup 0 RunDefault [exTest 74 0 exPlainParallelLink],
            exGroup 0 RunDefault [exTest 71 0 exParallelLink]]
   \<and> containerOf (exTest 70 0 exFileLink) = InGeneral
   \<and> containerOf (exTest 71 0 exParallelLink) = InParallelWithHooks
   \<and> containerOf (exTest 72 0 exSerialLink) = InParallel (KeySuite exSerialLink)
   \<and> containerOf (exTest 73 0 exSerialLink) = InParallel (KeySuite exSerialLink)
   \<and> containerOf (exTest 74 0 exPlainParallelLink)
       = InParallel (KeyTest (exTest 74 0 exPlainParallelLink))
   \<and> (\<exists>groups.
        placeTests [] (concat (map allTests [exKindsSuite])) = Inr groups
      \<and> emitBuckets 2 (allBuckets groups)
          = Inr [exGroup 0 RunDefault [exTest 70 0 exFileLink],
                 exGroup 0 RunDefault [exTest 72 0 exSerialLink, exTest 73 0 exSerialLink],
                 exGroup 0 RunDefault [exTest 74 0 exPlainParallelLink],
                 exGroup 0 RunDefault [exTest 71 0 exParallelLink]]
      \<and> placedTests groups ''w'' ''a.spec.ts'' InGeneral = [exTest 70 0 exFileLink]
      \<and> placedTests groups ''w'' ''a.spec.ts'' InParallelWithHooks
          = [exTest 71 0 exParallelLink]
      \<and> placedTests groups ''w'' ''a.spec.ts'' (InParallel (KeySuite exSerialLink))
          = [exTest 72 0 exSerialLink, exTest 73 0 exSerialLink]
      \<and> placedTests groups ''w'' ''a.spec.ts''
            (InParallel (KeyTest (exTest 74 0 exPlainParallelLink)))
          = [exTest 74 0 exPlainParallelLink]
      \<and> placedTests groups ''w'' ''a.spec.ts'' (InParallel (KeyTest (exTest 72 0 exSerialLink)))
          = []
      \<and> placedTests groups ''w'' ''b.spec.ts'' InGeneral = [])"
proof -
  let ?ts = "concat (map allTests [exKindsSuite])"
  let ?result = "[exGroup 0 RunDefault [exTest 70 0 exFileLink],
            exGroup 0 RunDefault [exTest 72 0 exSerialLink, exTest 73 0 exSerialLink],
            exGroup 0 RunDefault [exTest 74 0 exPlainParallelLink],
            exGroup 0 RunDefault [exTest 71 0 exParallelLink]]"
  have h: "createTestGroups [exKindsSuite] 2 = Inr ?result"
    by (simp add: exKindsSuite_def exPlainParallelLink_def ex_defs grouper_defs)
  have c: "containerOf (exTest 70 0 exFileLink) = InGeneral"
    "containerOf (exTest 71 0 exParallelLink) = InParallelWithHooks"
    "containerOf (exTest 72 0 exSerialLink) = InParallel (KeySuite exSerialLink)"
    "containerOf (exTest 73 0 exSerialLink) = InParallel (KeySuite exSerialLink)"
    "containerOf (exTest 74 0 exPlainParallelLink)
       = InParallel (KeyTest (exTest 74 0 exPlainParallelLink))"
    by (simp_all add: exPlainParallelLink_def ex_defs containerOf_def anyAncestorParallel_def
        anyAncestorAllHooks_def outermostSerialAncestor_def isSerial_def hasAllHook_def
        parallelKey_def)
  have ts: "?ts = [exTest 70 0 exFileLink, exTest 71 0 exParallelLink,
      exTest 72 0 exSerialLink, exTest 73 0 exSerialLink, exTest 74 0 exPlainParallelLink]"
    by (simp add: exKindsSuite_def)
  have tb: "testsOfBucket ''w'' ''a.spec.ts'' ?ts = [exTest 70 0 exFileLink,
      exTest 71 0 exParallelLink, exTest 72 0 exSerialLink, exTest 73 0 exSerialLink,
      exTest 74 0 exPlainParallelLink]"
    "testsOfBucket ''w'' ''b.spec.ts'' ?ts = []"
    unfolding ts by (simp_all add: testsOfBucket_def exTest_def)
  have ne: "exTest 72 0 exSerialLink \<noteq> exTest 74 0 exPlainParallelLink"
    "exTest 74 0 exPlainParallelLink \<noteq> exTest 72 0 exSerialLink"
    by (simp_all add: exTest_def)
  have f: "filter (\<lambda>t. containerOf t = InGeneral) (testsOfBucket ''w'' ''a.spec.ts'' ?ts)
        = [exTest 70 0 exFileLink]"
    "filter (\<lambda>t. containerOf t = InParallelWithHooks) (testsOfBucket ''w'' ''a.spec.ts'' ?ts)
        = [exTest 71 0 exParallelLink]"
    "filter (\<lambda>t. containerOf t = InParallel (KeySuite exSerialLink))
         (testsOfBucket ''w'' ''a.spec.ts'' ?ts)
        = [exTest 72 0 exSerialLink, exTest 73 0 exSerialLink]"
    "filter (\<lambda>t. containerOf t = InParallel (KeyTest (exTest 74 0 exPlainParallelLink)))
         (testsOfBucket ''w'' ''a.spec.ts'' ?ts)
        = [exTest 74 0 exPlainParallelLink]"
    "filter (\<lambda>t. containerOf t = InParallel (KeyTest (exTest 72 0 exSerialLink)))
         (testsOfBucket ''w'' ''a.spec.ts'' ?ts)
        = []"
    "filter (\<lambda>t. containerOf t = InGeneral) (testsOfBucket ''w'' ''b.spec.ts'' ?ts) = []"
    unfolding tb by (simp_all add: c ne)
  from createTestGroups_one_container[OF h] obtain groups where
    g: "placeTests [] ?ts = Inr groups
      \<and> emitBuckets 2 (allBuckets groups) = Inr ?result
      \<and> (\<forall>wh rf c. placedTests groups wh rf c =
          filter (\<lambda>t. containerOf t = c) (testsOfBucket wh rf ?ts))" ..
  note 1 = g[THEN conjunct1]
  note 2 = g[THEN conjunct2, THEN conjunct1]
  note 3 = g[THEN conjunct2, THEN conjunct2, rule_format]
  have k: "placeTests [] ?ts = Inr groups
      \<and> emitBuckets 2 (allBuckets groups) = Inr ?result
      \<and> placedTests groups ''w'' ''a.spec.ts'' InGeneral = [exTest 70 0 exFileLink]
      \<and> placedTests groups ''w'' ''a.spec.ts'' InParallelWithHooks
          = [exTest 71 0 exParallelLink]
      \<and> placedTests groups ''w'' ''a.spec.ts'' (InParallel (KeySuite exSerialLink))
          = [exTest 72 0 exSerialLink, exTest 73 0 exSerialLink]
      \<and> placedTests groups ''w'' ''a.spec.ts''
            (InParallel (KeyTest (exTest 74 0 exPlainParallelLink)))
          = [exTest 74 0 exPlainParallelLink]
      \<and> placedTests groups ''w'' ''a.spec.ts'' (InParallel (KeyTest (exTest 72 0 exSerialLink)))
          = []
      \<and> placedTests groups ''w'' ''b.spec.ts'' InGeneral = []"
    unfolding 3 f by (intro conjI 1 2 refl)
  have e: "\<exists>groups. placeTests [] ?ts = Inr groups
      \<and> emitBuckets 2 (allBuckets groups) = Inr ?result
      \<and> placedTests groups ''w'' ''a.spec.ts'' InGeneral = [exTest 70 0 exFileLink]
      \<and> placedTests groups ''w'' ''a.spec.ts'' InParallelWithHooks
          = [exTest 71 0 exParallelLink]
      \<and> placedTests groups ''w'' ''a.spec.ts'' (InParallel (KeySuite exSerialLink))
          = [exTest 72 0 exSerialLink, exTest 73 0 exSerialLink]
      \<and> placedTests groups ''w'' ''a.spec.ts''
            (InParallel (KeyTest (exTest 74 0 exPlainParallelLink)))
          = [exTest 74 0 exPlainParallelLink]
      \<and> placedTests groups ''w'' ''a.spec.ts'' (InParallel (KeyTest (exTest 72 0 exSerialLink)))
          = []
      \<and> placedTests groups ''w'' ''b.spec.ts'' InGeneral = []"
    by (rule exI[of _ groups]) (fact k)
  show ?thesis by (intro conjI h c e)
qed

subsection \<open>Group purity\<close>

lemma set_update_subset: "set (AList.update k v al) \<subseteq> insert (k, v) (set al)"
  by (induction al) auto

lemma createGroup_pure:
  assumes "createGroup test = Inr g" "test \<in> S"
  shows "pureGroup S (test_workerHash test) (test_requireFile test) g" "tests g = []"
  using assms by (auto simp: createGroup_def pureGroup_def split: option.splits)

lemma pushTest_pure:
  assumes "pureGroup S wh rf g" "test \<in> S" "test_workerHash test = wh" "test_requireFile test = rf"
  shows "pureGroup S wh rf (pushTest g test)"
  using assms by (auto simp: pureGroup_def pushTest_def)

lemma newBucket_pure:
  assumes "newBucket test = Inr b" "test \<in> S"
  shows "pureBucket S (test_workerHash test) (test_requireFile test) b"
  using assms createGroup_pure(1)[of test _ S]
  by (auto simp: newBucket_def pureBucket_def split: sum.splits)

lemma placeInBucket_pure:
  assumes "placeInBucket b0 test = Inr b" "test \<in> S"
    "pureBucket S (test_workerHash test) (test_requireFile test) b0"
  shows "pureBucket S (test_workerHash test) (test_requireFile test) b"
proof -
  obtain ip oms hah where w: "walkParents (Some (test_parent test)) (False, None, False) = (ip, oms, hah)"
    by (cases "walkParents (Some (test_parent test)) (False, None, False)") auto
  let ?wh = "test_workerHash test" and ?rf = "test_requireFile test"
  let ?key = "case oms of Some s \<Rightarrow> KeySuite s | None \<Rightarrow> KeyTest test"
  have push: "\<And>g. pureGroup S ?wh ?rf g \<Longrightarrow> pureGroup S ?wh ?rf (pushTest g test)"
    using assms(2) by (simp add: pushTest_pure)
  have upd: "\<And>g. pureGroup S ?wh ?rf g \<Longrightarrow>
      \<forall>kg\<in>set (AList.update ?key (pushTest g test) (parallel b0)). pureGroup S ?wh ?rf (snd kg)"
  proof
    fix g kg assume g: "pureGroup S ?wh ?rf g"
      and "kg \<in> set (AList.update ?key (pushTest g test) (parallel b0))"
    then have "kg = (?key, pushTest g test) \<or> kg \<in> set (parallel b0)"
      using set_update_subset[of ?key "pushTest g test" "parallel b0"] by auto
    then show "pureGroup S ?wh ?rf (snd kg)"
      using push[OF g] assms(3) by (auto simp: pureBucket_def)
  qed
  show ?thesis
  proof (cases ip)
    case False
    then show ?thesis using assms w push by (auto simp: placeInBucket_def pureBucket_def)
  next
    case True
    show ?thesis
    proof (cases "hah \<and> oms = None")
      case h: True
      then show ?thesis using True assms w push by (auto simp: placeInBucket_def pureBucket_def)
    next
      case h: False
      show ?thesis
      proof (cases "map_of (parallel b0) ?key")
        case None
        with True h assms(1) w obtain grp where cg: "createGroup test = Inr grp"
          and b: "b = b0\<lparr>parallel := AList.update ?key (pushTest grp test) (parallel b0)\<rparr>"
          by (auto simp: placeInBucket_def split: sum.splits if_splits)
        from upd[OF createGroup_pure(1)[OF cg assms(2)]] assms(3) show ?thesis
          unfolding b by (simp add: pureBucket_def)
      next
        case (Some grp)
        with True h assms(1) w have
          b: "b = b0\<lparr>parallel := AList.update ?key (pushTest grp test) (parallel b0)\<rparr>"
          by (auto simp: placeInBucket_def split: sum.splits if_splits)
        have "(?key, grp) \<in> set (parallel b0)" using Some by (rule map_of_SomeD)
        then have "pureGroup S ?wh ?rf grp" using assms(3) by (auto simp: pureBucket_def)
        from upd[OF this] assms(3) show ?thesis
          unfolding b by (simp add: pureBucket_def)
      qed
    qed
  qed
qed

lemma placeTest_pure:
  assumes "placeTest groups test = Inr groups'" "test \<in> S" "pureGroups S groups"
  shows "pureGroups S groups'"
proof -
  let ?wh = "test_workerHash test" and ?rf = "test_requireFile test"
  define m where "m = (case map_of groups ?wh of Some m \<Rightarrow> m | None \<Rightarrow> [])"
  from assms(1) obtain b0 b where
    b0: "(case map_of m ?rf of Some b \<Rightarrow> Inr b | None \<Rightarrow> newBucket test) = Inr b0"
    and b: "placeInBucket b0 test = Inr b"
    and g: "groups' = AList.update ?wh (AList.update ?rf b m) groups"
    by (auto simp: placeTest_def Let_def m_def split: sum.splits)
  have m: "\<forall>rb\<in>set m. pureBucket S ?wh (fst rb) (snd rb)"
  proof (cases "map_of groups ?wh")
    case None then show ?thesis by (simp add: m_def)
  next
    case (Some x)
    then have "(?wh, x) \<in> set groups" by (rule map_of_SomeD)
    then show ?thesis using assms(3) Some by (fastforce simp: pureGroups_def m_def)
  qed
  have "pureBucket S ?wh ?rf b0"
  proof (cases "map_of m ?rf")
    case None
    then show ?thesis using b0 newBucket_pure[OF _ assms(2)] by simp
  next
    case (Some x)
    then have "(?rf, x) \<in> set m" by (rule map_of_SomeD)
    then show ?thesis using m b0 Some by auto
  qed
  from placeInBucket_pure[OF b assms(2) this] have pb: "pureBucket S ?wh ?rf b" .
  have inner: "\<forall>rb\<in>set (AList.update ?rf b m). pureBucket S ?wh (fst rb) (snd rb)"
  proof
    fix rb assume "rb \<in> set (AList.update ?rf b m)"
    then have "rb = (?rf, b) \<or> rb \<in> set m"
      using set_update_subset[of ?rf b m] by auto
    then show "pureBucket S ?wh (fst rb) (snd rb)" using m pb by auto
  qed
  show ?thesis unfolding pureGroups_def g
  proof
    fix wm assume "wm \<in> set (AList.update ?wh (AList.update ?rf b m) groups)"
    then have "wm = (?wh, AList.update ?rf b m) \<or> wm \<in> set groups"
      using set_update_subset[of ?wh "AList.update ?rf b m" groups] by auto
    then show "\<forall>rb\<in>set (snd wm). pureBucket S (fst wm) (fst rb) (snd rb)"
      using inner assms(3) by (fastforce simp: pureGroups_def)
  qed
qed

lemma placeTests_pure:
  assumes "placeTests groups ts = Inr groups'" "set ts \<subseteq> S" "pureGroups S groups"
  shows "pureGroups S groups'"
  using assms
proof (induction ts arbitrary: groups)
  case Nil then show ?case by simp
next
  case (Cons t ts)
  from Cons.prems(1) obtain g1 where 1: "placeTest groups t = Inr g1"
    and 2: "placeTests g1 ts = Inr groups'" by (auto split: sum.splits)
  from placeTest_pure[OF 1 _ Cons.prems(3)] Cons.prems(2) have "pureGroups S g1" by simp
  from Cons.IH[OF 2 _ this] Cons.prems(2) show ?case by simp
qed

lemma splitParallelWithHooks_pure:
  assumes "splitParallelWithHooks k acc ts = Inr gs"
    "\<forall>g\<in>set acc. pureGroup S wh rf g"
    "\<forall>t\<in>set ts. t \<in> S \<and> test_workerHash t = wh \<and> test_requireFile t = rf"
  shows "\<forall>g\<in>set gs. pureGroup S wh rf g"
  using assms
proof (induction ts arbitrary: acc)
  case Nil then show ?case by simp
next
  case (Cons test rest)
  have t: "test \<in> S" "test_workerHash test = wh" "test_requireFile test = rf"
    using Cons.prems(3) by auto
  have r: "\<forall>t\<in>set rest. t \<in> S \<and> test_workerHash t = wh \<and> test_requireFile t = rf"
    using Cons.prems(3) by auto
  show ?case
  proof (cases "acc = [] \<or> k \<le> enat (length (tests (last acc)))")
    case True
    with Cons.prems(1) obtain lastGroup where
      cg: "createGroup test = Inr lastGroup"
      and rec: "splitParallelWithHooks k (acc @ [pushTest lastGroup test]) rest = Inr gs"
      by (auto split: sum.splits)
    have "pureGroup S wh rf (pushTest lastGroup test)"
      using createGroup_pure(1)[OF cg t(1)] t by (simp add: pushTest_pure)
    then have "\<forall>g\<in>set (acc @ [pushTest lastGroup test]). pureGroup S wh rf g"
      using Cons.prems(2) by auto
    from Cons.IH[OF rec this r] show ?thesis .
  next
    case False
    then have ne: "acc \<noteq> []" by auto
    from False Cons.prems(1) have
      rec: "splitParallelWithHooks k (butlast acc @ [pushTest (last acc) test]) rest = Inr gs"
      by auto
    have "pureGroup S wh rf (last acc)" using ne Cons.prems(2) by simp
    then have "pureGroup S wh rf (pushTest (last acc) test)" using t by (simp add: pushTest_pure)
    then have "\<forall>g\<in>set (butlast acc @ [pushTest (last acc) test]). pureGroup S wh rf g"
      using Cons.prems(2) by (auto dest: in_set_butlastD)
    from Cons.IH[OF rec this r] show ?thesis .
  qed
qed

lemma emitBucket_pure:
  assumes "emitBucket workers b = Inr gs" "pureBucket S wh rf b"
  shows "\<forall>g\<in>set gs. pureGroup S wh rf g"
proof -
  from assms(1) obtain chunks where
    c: "splitParallelWithHooks
          (parallelWithHooksGroupSize (length (tests (parallelWithHooks b))) workers)
          [] (tests (parallelWithHooks b)) = Inr chunks"
    and gs: "gs = (if tests (general b) \<noteq> [] then [general b] else []) @ map snd (parallel b) @ chunks"
    by (auto simp: emitBucket_def split: sum.splits)
  have "\<forall>t\<in>set (tests (parallelWithHooks b)). t \<in> S \<and> test_workerHash t = wh \<and> test_requireFile t = rf"
    using assms(2) by (auto simp: pureBucket_def pureGroup_def)
  from splitParallelWithHooks_pure[OF c _ this] have "\<forall>g\<in>set chunks. pureGroup S wh rf g" by simp
  then show ?thesis using assms(2) unfolding gs by (auto simp: pureBucket_def)
qed

lemma emitBuckets_pure:
  assumes "emitBuckets workers bs = Inr gs" "\<forall>b\<in>set bs. \<exists>wh rf. pureBucket S wh rf b"
  shows "\<forall>g\<in>set gs. \<exists>wh rf. pureGroup S wh rf g"
  using assms
proof (induction bs arbitrary: gs)
  case Nil then show ?case by simp
next
  case (Cons b bs)
  from Cons.prems(1) obtain g1 g2 where 1: "emitBucket workers b = Inr g1"
    and 2: "emitBuckets workers bs = Inr g2" and gs: "gs = g1 @ g2"
    by (auto split: sum.splits)
  from Cons.prems(2) obtain wh rf where "pureBucket S wh rf b" by auto
  from emitBucket_pure[OF 1 this] have a: "\<forall>g\<in>set g1. \<exists>wh rf. pureGroup S wh rf g" by blast
  from Cons.IH[OF 2] Cons.prems(2) have "\<forall>g\<in>set g2. \<exists>wh rf. pureGroup S wh rf g" by simp
  with a show ?case unfolding gs by auto
qed

lemma createTestGroups_pure:
  assumes "createTestGroups projectSuites workers = Inr gs" "g \<in> set gs"
  shows "\<exists>wh rf. pureGroup (set (concat (map allTests projectSuites))) wh rf g"
proof -
  let ?S = "set (concat (map allTests projectSuites))"
  from assms(1) obtain groups where
    1: "placeTests [] (concat (map allTests projectSuites)) = Inr groups"
    and 2: "emitBuckets workers (allBuckets groups) = Inr gs"
    by (auto simp: createTestGroups_def split: sum.splits)
  have "pureGroups ?S groups"
    by (rule placeTests_pure[OF 1]) (simp_all add: pureGroups_def)
  then have "\<forall>b\<in>set (allBuckets groups). \<exists>wh rf. pureBucket ?S wh rf b"
    by (fastforce simp: pureGroups_def allBuckets_def)
  from emitBuckets_pure[OF 2 this] assms(2) show ?thesis by blast
qed

text \<open>
  C2, as amended. In every group the grouper emits, every test has the group's worker hash
  and the group's file. When, among the tests given to the grouper, the worker hash
  determines the repeat index and the project, every test of a group also has the group's
  repeat index and the group's project.
\<close>

theorem createTestGroups_group_purity:
  assumes "createTestGroups projectSuites workers = Inr gs" "g \<in> set gs" "t \<in> set (tests g)"
  shows "test_workerHash t = workerHash g \<and> test_requireFile t = requireFile g
    \<and> (workerHashDetermines (concat (map allTests projectSuites))
        \<longrightarrow> test_repeatEachIndex t = repeatEachIndex g \<and> test_projectId t = projectId g)"
proof -
  from createTestGroups_pure[OF assms(1,2)] obtain wh rf where
    p: "pureGroup (set (concat (map allTests projectSuites))) wh rf g" by blast
  then show ?thesis using assms(3) unfolding pureGroup_def workerHashDetermines_def list_all_iff
    by metis
qed

theorem createTestGroups_group_purity_witness:
  "createTestGroups [exHooksSuite] 2
     = Inr [exGroup 0 RunDefault (map (\<lambda>n. exTest n 0 exParallelLink) [10, 11, 12]),
            exGroup 0 RunDefault (map (\<lambda>n. exTest n 0 exParallelLink) [13, 14])]
   \<and> workerHashDetermines (concat (map allTests [exHooksSuite]))
   \<and> test_workerHash (exTest 14 0 exParallelLink)
       = workerHash (exGroup 0 RunDefault (map (\<lambda>n. exTest n 0 exParallelLink) [13, 14]))
   \<and> test_requireFile (exTest 14 0 exParallelLink)
       = requireFile (exGroup 0 RunDefault (map (\<lambda>n. exTest n 0 exParallelLink) [13, 14]))
   \<and> test_repeatEachIndex (exTest 14 0 exParallelLink)
       = repeatEachIndex (exGroup 0 RunDefault (map (\<lambda>n. exTest n 0 exParallelLink) [13, 14]))
   \<and> test_projectId (exTest 14 0 exParallelLink)
       = projectId (exGroup 0 RunDefault (map (\<lambda>n. exTest n 0 exParallelLink) [13, 14]))"
proof -
  let ?g = "exGroup 0 RunDefault (map (\<lambda>n. exTest n 0 exParallelLink) [13, 14])"
  have h: "createTestGroups [exHooksSuite] 2
     = Inr [exGroup 0 RunDefault (map (\<lambda>n. exTest n 0 exParallelLink) [10, 11, 12]), ?g]"
    by (simp add: exHooksSuite_def ex_defs grouper_defs)
  have d: "workerHashDetermines (concat (map allTests [exHooksSuite]))"
    by (simp add: workerHashDetermines_def exHooksSuite_def ex_defs)
  have g: "?g \<in> set [exGroup 0 RunDefault (map (\<lambda>n. exTest n 0 exParallelLink) [10, 11, 12]), ?g]"
    by simp
  have t: "exTest 14 0 exParallelLink \<in> set (tests ?g)" by (simp add: exGroup_def)
  from createTestGroups_group_purity[OF h g t] d h show ?thesis by blast
qed

text \<open>
  The claim as it was stated fails: two tests with the same worker hash and file but repeat
  indices 0 and 1 end up in one group, whose repeat index is 0.
\<close>

theorem createTestGroups_group_purity_counterexample:
  "createTestGroups [exMixedSuite] 1
     = Inr [exGroup 0 RunDefault [exTest 30 0 exFileLink, exTest 31 1 exFileLink]]
   \<and> exTest 31 1 exFileLink
       \<in> set (tests (exGroup 0 RunDefault [exTest 30 0 exFileLink, exTest 31 1 exFileLink]))
   \<and> test_repeatEachIndex (exTest 31 1 exFileLink)
       \<noteq> repeatEachIndex (exGroup 0 RunDefault [exTest 30 0 exFileLink, exTest 31 1 exFileLink])"
  by (simp add: exMixedSuite_def ex_defs grouper_defs)

subsection \<open>The grouper returns when every test has a project\<close>

lemma createGroup_total:
  "project (test_parent t) \<noteq> None \<Longrightarrow> \<exists>g. createGroup t = Inr g"
  by (auto simp: createGroup_def)

lemma placeTest_total:
  assumes "project (test_parent t) \<noteq> None"
  shows "\<exists>groups'. placeTest groups t = Inr groups'"
proof -
  from createGroup_total[OF assms] obtain g where g: "createGroup t = Inr g" by blast
  have b: "\<exists>b'. placeInBucket b t = Inr b'" for b
    by (auto simp: placeInBucket_def g Let_def split: prod.splits option.splits)
  show ?thesis
  proof (cases "map_of (case map_of groups (test_workerHash t) of Some m \<Rightarrow> m | None \<Rightarrow> [])
                  (test_requireFile t)")
    case None
    obtain b' where "placeInBucket \<lparr> general = g, parallel = [], parallelWithHooks = g \<rparr> t = Inr b'"
      using b by blast
    then show ?thesis using None by (simp add: placeTest_def newBucket_def g Let_def)
  next
    case (Some b0)
    obtain b' where "placeInBucket b0 t = Inr b'" using b by blast
    then show ?thesis using Some by (simp add: placeTest_def Let_def)
  qed
qed

lemma placeTests_total:
  "\<forall>t\<in>set ts. project (test_parent t) \<noteq> None \<Longrightarrow> \<exists>groups'. placeTests groups ts = Inr groups'"
proof (induction ts arbitrary: groups)
  case Nil
  then show ?case by simp
next
  case (Cons t ts)
  then obtain g1 where "placeTest groups t = Inr g1" using placeTest_total[of t groups] by auto
  then show ?case using Cons by simp
qed

lemma splitParallelWithHooks_total:
  "\<forall>t\<in>set ts. project (test_parent t) \<noteq> None \<Longrightarrow>
     \<exists>gs. splitParallelWithHooks k acc ts = Inr gs"
proof (induction ts arbitrary: acc)
  case Nil
  then show ?case by simp
next
  case (Cons t ts)
  then obtain g where "createGroup t = Inr g" using createGroup_total[of t] by auto
  then show ?case using Cons by simp
qed

lemma emitBuckets_total:
  assumes "\<forall>b\<in>set bs. \<forall>t\<in>set (tests (parallelWithHooks b)). project (test_parent t) \<noteq> None"
  shows "\<exists>gs. emitBuckets workers bs = Inr gs"
  using assms
proof (induction bs)
  case Nil
  then show ?case by simp
next
  case (Cons b bs)
  have "\<forall>t\<in>set (tests (parallelWithHooks b)). project (test_parent t) \<noteq> None"
    using Cons.prems by simp
  from splitParallelWithHooks_total[OF this] obtain chunks where
    "splitParallelWithHooks
       (parallelWithHooksGroupSize (length (tests (parallelWithHooks b))) workers) []
       (tests (parallelWithHooks b)) = Inr chunks"
    by blast
  then obtain g1 where 1: "emitBucket workers b = Inr g1" by (simp add: emitBucket_def)
  from Cons obtain g2 where 2: "emitBuckets workers bs = Inr g2" by auto
  show ?case by (simp add: 1 2)
qed

lemma createTestGroups_total:
  assumes "\<forall>t\<in>set (concat (map allTests projectSuites)). project (test_parent t) \<noteq> None"
  shows "\<exists>gs. createTestGroups projectSuites workers = Inr gs"
proof -
  let ?S = "set (concat (map allTests projectSuites))"
  from placeTests_total[OF assms] obtain groups where
    1: "placeTests [] (concat (map allTests projectSuites)) = Inr groups" by blast
  have "pureGroups ?S groups"
    by (rule placeTests_pure[OF 1]) (simp_all add: pureGroups_def)
  then have "\<forall>b\<in>set (allBuckets groups). \<forall>t\<in>set (tests (parallelWithHooks b)). t \<in> ?S"
    by (fastforce simp: pureGroups_def allBuckets_def pureBucket_def pureGroup_def)
  then have "\<forall>b\<in>set (allBuckets groups).
      \<forall>t\<in>set (tests (parallelWithHooks b)). project (test_parent t) \<noteq> None"
    using assms by blast
  from emitBuckets_total[OF this] show ?thesis
    by (simp add: createTestGroups_def 1)
qed

subsection \<open>Chunks of the tests with hooks\<close>





section \<open>Properties of the suite filters\<close>

lemma filterSuiteWithOnlySemantics_info:
  "info (snd (filterSuiteWithOnlySemantics sf tf s)) = info s"
  by (cases s) (simp add: Let_def)

lemma filterSuiteWithOnlySemantics_info':
  "filterSuiteWithOnlySemantics sf tf s = (r, s') \<Longrightarrow> info s' = info s"
  using filterSuiteWithOnlySemantics_info[of sf tf s] by simp

lemma visitEntriesWithOnlySemantics_ids:
  "map entryId (map snd (visitEntriesWithOnlySemantics sf tf es)) = map entryId es"
proof (induction es)
  case Nil
  then show ?case by simp
next
  case (Cons e es)
  then show ?case
    by (cases e) (auto split: prod.splits simp: filterSuiteWithOnlySemantics_info')
qed

lemma allSuitesOfEntries_filter:
  "set (allSuitesOfEntries (map snd (filter fst v))) \<subseteq> set (allSuitesOfEntries (map snd v))"
proof (induction v)
  case Nil
  then show ?case by simp
next
  case (Cons x v)
  obtain k e where x: "x = (k, e)" by (cases x)
  show ?case using Cons unfolding x by (cases e) auto
qed

lemma entriesSubseq_refl: "entriesSubseq s s"
  by (simp add: entriesSubseq_def)

lemma filterSuiteWithOnlySemantics_order:
  "(\<forall>s'\<in>set (allSuites (snd (filterSuiteWithOnlySemantics sf tf s))).
      \<exists>s0\<in>set (allSuites s). entriesSubseq s0 s')"
  "(\<forall>s'\<in>set (allSuitesOfEntries (map snd (visitEntriesWithOnlySemantics sf tf es))).
      \<exists>s0\<in>set (allSuitesOfEntries es). entriesSubseq s0 s')"
proof (induction sf tf s and sf tf es
    rule: filterSuiteWithOnlySemantics_visitEntriesWithOnlySemantics.induct)
  case (1 sf tf i es)
  let ?v = "visitEntriesWithOnlySemantics sf tf es"
  have ids: "map entryId (map snd ?v) = map entryId es"
    by (rule visitEntriesWithOnlySemantics_ids)
  have sub: "subseq (map entryId (map snd (filter fst ?v))) (map entryId es)"
    unfolding ids[symmetric] by (intro subseq_map) (simp add: subseq_map)
  show ?case
  proof (cases "map snd (filter fst ?v) \<noteq> []")
    case True
    have top: "entriesSubseq (Suite i es) (Suite i (map snd (filter fst ?v)))"
      using sub by (simp add: entriesSubseq_def)
    have "\<forall>s'\<in>set (allSuitesOfEntries (map snd (filter fst ?v))).
        \<exists>s0\<in>set (allSuitesOfEntries es). entriesSubseq s0 s'"
      using 1 allSuitesOfEntries_filter[of ?v] by blast
    with top True show ?thesis by (auto simp: Let_def)
  next
    case False
    have top: "entriesSubseq (Suite i es) (Suite i (map snd ?v))"
      using ids by (simp add: entriesSubseq_def)
    with 1 False show ?thesis by (auto simp: Let_def)
  qed
next
  case (2 sf tf)
  then show ?case by simp
next
  case (3 sf tf child es)
  obtain r child' where c: "filterSuiteWithOnlySemantics sf tf child = (r, child')"
    by (cases "filterSuiteWithOnlySemantics sf tf child")
  have a: "\<forall>s'\<in>set (allSuites child'). \<exists>s0\<in>set (allSuites child). entriesSubseq s0 s'"
    using 3(1) c by simp
  show ?case using a 3(2) unfolding visitEntriesWithOnlySemantics.simps c
    by (simp add: ball_Un bex_Un)
next
  case (4 sf tf t es)
  then show ?case by simp
qed

lemma filterSuite_info: "info (filterSuite sf tf s) = info s"
  by (cases s) simp

lemma filterSuiteEntries_ids:
  "subseq (map entryId (filterSuiteEntries sf tf es)) (map entryId es)"
proof (induction es)
  case Nil
  then show ?case by simp
next
  case (Cons e es)
  then show ?case by (cases e) (auto simp: filterSuite_info)
qed

lemma filterSuite_order:
  "(\<forall>s'\<in>set (allSuites (filterSuite sf tf s)). \<exists>s0\<in>set (allSuites s). entriesSubseq s0 s')"
  "(\<forall>s'\<in>set (allSuitesOfEntries (filterSuiteEntries sf tf es)).
      \<exists>s0\<in>set (allSuitesOfEntries es). entriesSubseq s0 s')"
proof (induction sf tf s and sf tf es rule: filterSuite_filterSuiteEntries.induct)
  case (1 sf tf i es)
  have "entriesSubseq (Suite i es) (Suite i (filterSuiteEntries sf tf es))"
    using filterSuiteEntries_ids by (simp add: entriesSubseq_def)
  with 1 show ?case by auto
next
  case (2 sf tf)
  then show ?case by simp
next
  case (3 sf tf child es)
  show ?case
  proof (cases "sf child")
    case True
    then show ?thesis using 3(2) by (auto intro: entriesSubseq_refl)
  next
    case False
    then show ?thesis using 3 by auto
  qed
next
  case (4 sf tf t es)
  then show ?case by auto
qed

text \<open>
  C9. After the filter with only-semantics and after the plain filter, every suite of the
  tree is a suite of the tree before the filter (the same object: the same fields, and with
  them the same identifier) whose entries are, by identity and in order, a subsequence of the
  entries it had before.
\<close>

theorem filters_preserve_entry_order:
  "(\<forall>s'\<in>set (allSuites (snd (filterSuiteWithOnlySemantics suiteFilter testFilter s))).
      \<exists>s0\<in>set (allSuites s). entriesSubseq s0 s')
   \<and> (\<forall>s'\<in>set (allSuites (filterSuite suiteFilter testFilter s)).
      \<exists>s0\<in>set (allSuites s). entriesSubseq s0 s')"
  using filterSuiteWithOnlySemantics_order(1)[of suiteFilter testFilter s]
    filterSuite_order(1)[of suiteFilter testFilter s]
  by (rule conjI)

theorem filters_preserve_entry_order_witness:
  "snd (filterOnly exOnlySuite)
     = Suite (exInfo 2 ModeDefault [] None)
         [ETest ((exTest 41 0 exFileLink)\<lparr> test_only := True \<rparr>),
          ESuite (Suite (exInfo 5 ModeDefault [] None)
            [ETest ((exTest 44 0 exFileLink)\<lparr> test_only := True \<rparr>)])]
   \<and> (\<exists>s0\<in>set (allSuites exOnlySuite).
        entriesSubseq s0 (Suite (exInfo 5 ModeDefault [] None)
            [ETest ((exTest 44 0 exFileLink)\<lparr> test_only := True \<rparr>)]))
   \<and> filterSuite (\<lambda>c. False) test_only exOnlySuite
     = Suite (exInfo 2 ModeDefault [] None)
         [ETest ((exTest 41 0 exFileLink)\<lparr> test_only := True \<rparr>),
          ESuite (Suite (exInfo 5 ModeDefault [] None)
            [ETest ((exTest 44 0 exFileLink)\<lparr> test_only := True \<rparr>)]),
          ESuite (Suite (exInfo 6 ModeDefault [] None) [])]
   \<and> (\<exists>s0\<in>set (allSuites exOnlySuite).
        entriesSubseq s0 (Suite (exInfo 6 ModeDefault [] None) []))"
proof -
  let ?d = "Suite (exInfo 5 ModeDefault [] None)
            [ETest ((exTest 44 0 exFileLink)\<lparr> test_only := True \<rparr>)]"
  let ?e = "Suite (exInfo 6 ModeDefault [] None) []"
  have a: "snd (filterOnly exOnlySuite)
     = Suite (exInfo 2 ModeDefault [] None)
         [ETest ((exTest 41 0 exFileLink)\<lparr> test_only := True \<rparr>), ESuite ?d]"
    by (simp add: filterOnly_def exOnlySuite_def ex_defs Let_def)
  have b: "filterSuite (\<lambda>c. False) test_only exOnlySuite
     = Suite (exInfo 2 ModeDefault [] None)
         [ETest ((exTest 41 0 exFileLink)\<lparr> test_only := True \<rparr>), ESuite ?d, ESuite ?e]"
    by (simp add: exOnlySuite_def ex_defs)
  have "?d \<in> set (allSuites (snd (filterSuiteWithOnlySemantics (\<lambda>c. suite_only (info c))
      test_only exOnlySuite)))"
    unfolding a[unfolded filterOnly_def] by simp
  moreover have "?e \<in> set (allSuites (filterSuite (\<lambda>c. False) test_only exOnlySuite))"
    unfolding b by simp
  moreover note filters_preserve_entry_order[of "\<lambda>c. suite_only (info c)" test_only exOnlySuite]
    filters_preserve_entry_order[of "\<lambda>c. False" test_only exOnlySuite]
  ultimately show ?thesis using a b by blast
qed

section \<open>Properties of the shard filter\<close>

lemma shardableSeen_append:
  "shardableSeen (xs @ ys) = shardableSeen xs + shardableSeen ys"
  by (simp add: shardableSeen_def)

lemma shardableSeen_single:
  "shardableSeen [g] = (if run g \<noteq> RunAlways then length (tests g) else 0)"
  by (simp add: shardableSeen_def)

lemma upt_shift: "[0..<Suc n] = 0 # map Suc [0..<n]"
  by (simp add: upt_conv_Cons map_Suc_upt del: upt_Suc)

lemma keptOfStage_Nil: "keptOfStage from to before [] = []"
  by (simp add: keptOfStage_def)

lemma keptOfStage_Cons:
  "keptOfStage from to before (g # rest) =
     (if run g = RunAlways
         \<or> (from \<le> int (shardableSeen before) \<and> int (shardableSeen before) < to)
      then [g] else [])
     @ keptOfStage from to (before @ [g]) rest"
proof -
  have "[0..<length (g # rest)] = 0 # map Suc [0..<length rest]"
    using upt_shift[of "length rest"] by simp
  then show ?thesis
    by (simp add: keptOfStage_def filter_map comp_def)
qed

lemma shardStage_kept:
  "shardStage (Some (from, to)) (shardableSeen before) stage
     = (shardableSeen (before @ stage), keptOfStage from to before stage)"
proof (induction stage arbitrary: before)
  case Nil
  then show ?case by (simp add: keptOfStage_Nil)
next
  case (Cons g rest)
  have c: "shardableSeen (before @ g # rest) = shardableSeen ((before @ [g]) @ rest)" by simp
  show ?case
  proof (cases "run g = RunAlways")
    case True
    then have s: "shardableSeen (before @ [g]) = shardableSeen before"
      by (simp add: shardableSeen_append shardableSeen_single)
    show ?thesis using True Cons[of "before @ [g]"] unfolding c s
      by (simp add: keptOfStage_Cons)
  next
    case False
    then have s: "shardableSeen (before @ [g]) = shardableSeen before + length (tests g)"
      by (simp add: shardableSeen_append shardableSeen_single)
    show ?thesis using False Cons[of "before @ [g]"] unfolding c s
      by (simp add: keptOfStage_Cons inBounds_def)
  qed
qed

lemma shardStages_kept:
  "shardStages (Some (from, to)) (shardableSeen before) stages
     = filter (\<lambda>s. s \<noteq> [])
         (map (\<lambda>i. keptOfStage from to (before @ concat (take i stages)) (stages ! i))
            [0..<length stages])"
proof (induction stages arbitrary: before)
  case Nil
  then show ?case by simp
next
  case (Cons stage rest)
  have u: "[0..<length (stage # rest)] = 0 # map Suc [0..<length rest]"
    using upt_shift[of "length rest"] by simp
  show ?case
    unfolding u using Cons[of "before @ stage"]
    by (simp add: shardStage_kept comp_def)
qed

lemma countShardable_sum:
  assumes "countShardable rootSuite acc ss = Inr n"
  shows "n = acc + sum_list (map (\<lambda>ps. length (allTests ps))
           (filter (\<lambda>ps. map_option project_run (suiteProject rootSuite ps) \<noteq> Some RunAlways) ss))"
  using assms
proof (induction ss arbitrary: acc)
  case Nil
  then show ?case by simp
next
  case (Cons ps ss)
  from Cons.prems obtain p where p: "suiteProject rootSuite ps = Some p"
    by (auto split: option.splits)
  show ?case
  proof (cases "project_run p \<noteq> RunAlways")
    case True
    with Cons.prems p have "countShardable rootSuite (acc + length (allTests ps)) ss = Inr n"
      by simp
    from Cons.IH[OF this] show ?thesis using True p by simp
  next
    case False
    with Cons.prems p have "countShardable rootSuite acc ss = Inr n" by simp
    from Cons.IH[OF this] show ?thesis using False p by simp
  qed
qed

text \<open>
  C3. With a shard configuration whose \<open>total\<close> is not zero, the shard filter counts as
  \<open>shardableTotal\<close> the tests of the project suites whose project is not \<^verbatim>\<open>always\<close>, takes
  \<open>from\<close> and \<open>to\<close> by the formulas of the claim, and keeps of every stage exactly the groups
  that are \<^verbatim>\<open>always\<close> or before which the number of shardable tests seen, over all stages in
  order, lies in \<open>[from, to)\<close>; a stage of which nothing is kept is dropped.
\<close>

theorem filterForCurrentShard_formula:
  assumes "shard_total shard \<noteq> 0"
    "filterForCurrentShard (Some shard) rootSuite concurrentTestGroups = Inr (rootSuite', stages')"
  shows "\<exists>shardableTotal shardSize extraOne k from to.
      countShardable rootSuite 0 (suites rootSuite) = Inr shardableTotal
    \<and> shardableTotal = sum_list (map (\<lambda>ps. length (allTests ps))
        (filter (\<lambda>ps. map_option project_run (suiteProject rootSuite ps) \<noteq> Some RunAlways)
           (suites rootSuite)))
    \<and> shardSize = int shardableTotal div shard_total shard
    \<and> extraOne = int shardableTotal - shardSize * shard_total shard
    \<and> k = shard_current shard - 1
    \<and> from = shardSize * k + min extraOne k
    \<and> to = from + shardSize + (if k < extraOne then 1 else 0)
    \<and> stages' = filter (\<lambda>s. s \<noteq> [])
        (map (\<lambda>i. keptOfStage from to (concat (take i concurrentTestGroups))
                  (concurrentTestGroups ! i))
           [0..<length concurrentTestGroups])"
proof -
  from assms(2) obtain n where
    n: "countShardable rootSuite 0 (suites rootSuite) = Inr n"
    and s: "stages' = shardStages (shardBounds shard n) 0 concurrentTestGroups"
    by (auto simp: filterForCurrentShard_def Let_def split: sum.splits)
  define shardSize where "shardSize = int n div shard_total shard"
  define extraOne where "extraOne = int n - shardSize * shard_total shard"
  define k where "k = shard_current shard - 1"
  define "from" where "from = shardSize * k + min extraOne k"
  define to where "to = from + shardSize + (if k < extraOne then 1 else 0)"
  have b: "shardBounds shard n = Some (from, to)"
    using assms(1)
    by (simp add: shardBounds_def Let_def shardSize_def extraOne_def k_def from_def to_def)
  have z: "(0::nat) = shardableSeen []" by (simp add: shardableSeen_def)
  have st: "stages' = filter (\<lambda>s. s \<noteq> [])
        (map (\<lambda>i. keptOfStage from to (concat (take i concurrentTestGroups))
                  (concurrentTestGroups ! i))
           [0..<length concurrentTestGroups])"
    unfolding s b by (subst z) (simp add: shardStages_kept)
  have sm: "n = sum_list (map (\<lambda>ps. length (allTests ps))
        (filter (\<lambda>ps. map_option project_run (suiteProject rootSuite ps) \<noteq> Some RunAlways)
           (suites rootSuite)))"
    using countShardable_sum[OF n] by simp
  show ?thesis
    apply (rule exI[of _ n], rule exI[of _ shardSize], rule exI[of _ extraOne])
    apply (rule exI[of _ k], rule exI[of _ "from"], rule exI[of _ to])
    apply (intro conjI)
    by (fact n sm shardSize_def extraOne_def k_def from_def to_def st)+
qed

theorem filterForCurrentShard_formula_witness:
  "shard_total \<lparr> shard_current = 3, shard_total = 3 \<rparr> \<noteq> 0
   \<and> filterForCurrentShard (Some \<lparr> shard_current = 3, shard_total = 3 \<rparr>)
        (exShardRootOf [0, 1, 2, 3, 4, 5, 6, 7, 8, 9])
        [exShardStageOf [0, 1, 2, 3, 4, 5, 6, 7, 8, 9]]
      = Inr (exShardRootOf [7, 8, 9], [exShardStageOf [7, 8, 9]])
   \<and> (\<exists>shardableTotal shardSize extraOne k from to.
        countShardable (exShardRootOf [0, 1, 2, 3, 4, 5, 6, 7, 8, 9]) 0
          (suites (exShardRootOf [0, 1, 2, 3, 4, 5, 6, 7, 8, 9])) = Inr shardableTotal
      \<and> shardableTotal = 10 \<and> shardSize = (3::int) \<and> extraOne = (1::int) \<and> k = (2::int)
      \<and> from = 7 \<and> to = 10
      \<and> [exShardStageOf [7, 8, 9]] = filter (\<lambda>s. s \<noteq> [])
          (map (\<lambda>i. keptOfStage from to
                    (concat (take i [exShardStageOf [0, 1, 2, 3, 4, 5, 6, 7, 8, 9]]))
                    ([exShardStageOf [0, 1, 2, 3, 4, 5, 6, 7, 8, 9]] ! i))
             [0..<length [exShardStageOf [0, 1, 2, 3, 4, 5, 6, 7, 8, 9]]]))"
proof -
  let ?sh = "\<lparr> shard_current = 3, shard_total = 3 \<rparr>"
  let ?root = "exShardRootOf [0, 1, 2, 3, 4, 5, 6, 7, 8, 9]"
  let ?stages = "[exShardStageOf [0, 1, 2, 3, 4, 5, 6, 7, 8, 9]]"
  have t: "shard_total ?sh \<noteq> 0" by simp
  have c: "countShardable ?root 0 (suites ?root) = Inr 10"
    by (simp add: exShardRootOf_def exInfo_def exProject_def suiteProject_def)
  have h: "filterForCurrentShard (Some ?sh) ?root ?stages
      = Inr (exShardRootOf [7, 8, 9], [exShardStageOf [7, 8, 9]])"
    by code_simp
  from filterForCurrentShard_formula[OF t h] obtain shardableTotal shardSize extraOne k "from" to
    where 1: "countShardable ?root 0 (suites ?root) = Inr shardableTotal"
      and 2: "shardSize = int shardableTotal div shard_total ?sh"
      and 3: "extraOne = int shardableTotal - shardSize * shard_total ?sh"
      and 4: "k = shard_current ?sh - 1"
      and 5: "from = shardSize * k + min extraOne k"
      and 6: "to = from + shardSize + (if k < extraOne then 1 else 0)"
      and 7: "[exShardStageOf [7, 8, 9]] = filter (\<lambda>s. s \<noteq> [])
          (map (\<lambda>i. keptOfStage from to (concat (take i ?stages)) (?stages ! i))
             [0..<length ?stages])"
    by blast
  from 1 c have n: "shardableTotal = 10" by simp
  have s: "shardSize = 3" using 2 n by simp
  have e: "extraOne = 1" using 3 n s by simp
  have k: "k = 2" using 4 by simp
  have f: "from = 7" using 5 s e k by simp
  have o: "to = 10" using 6 f s e k by simp
  have "\<exists>shardableTotal shardSize extraOne k from to.
        countShardable ?root 0 (suites ?root) = Inr shardableTotal
      \<and> shardableTotal = 10 \<and> shardSize = (3::int) \<and> extraOne = (1::int) \<and> k = (2::int)
      \<and> from = 7 \<and> to = 10
      \<and> [exShardStageOf [7, 8, 9]] = filter (\<lambda>s. s \<noteq> [])
          (map (\<lambda>i. keptOfStage from to (concat (take i ?stages)) (?stages ! i))
             [0..<length ?stages])"
    apply (rule exI[of _ shardableTotal], rule exI[of _ shardSize], rule exI[of _ extraOne])
    apply (rule exI[of _ k], rule exI[of _ "from"], rule exI[of _ to])
    apply (intro conjI)
    by (fact 1 n s e k f o 7)+
  with t h show ?thesis by (intro conjI)
qed

subsection \<open>The shards partition the shardable tests\<close>

lemma shardStage_append:
  "shardStage b c (xs @ ys) =
     (case shardStage b c xs of (c1, k1) \<Rightarrow>
        (case shardStage b c1 ys of (c2, k2) \<Rightarrow> (c2, k1 @ k2)))"
  by (induction xs arbitrary: c) (auto split: prod.splits)

lemma concat_shardStages:
  "concat (shardStages b c stages) = snd (shardStage b c (concat stages))"
proof (induction stages arbitrary: c)
  case Nil
  then show ?case by simp
next
  case (Cons stage rest)
  obtain c1 k1 where 1: "shardStage b c stage = (c1, k1)" by (cases "shardStage b c stage")
  obtain c2 k2 where 2: "shardStage b c1 (concat rest) = (c2, k2)"
    by (cases "shardStage b c1 (concat rest)")
  show ?case using Cons[of c1] by (simp add: shardStage_append 1 2)
qed

lemma shardableTestsOfShard_kept:
  "shardableTestsOfShard current totalShards shardableTotal stages =
     shardableTestsKept
       (shardBounds \<lparr> shard_current = current, shard_total = totalShards \<rparr> shardableTotal)
       0 (concat stages)"
  by (simp add: shardableTestsOfShard_def shardableTestsKept_def concat_shardStages)

lemma shardableTestsKept_Nil: "shardableTestsKept b c [] = []"
  by (simp add: shardableTestsKept_def)

lemma shardableTestsKept_Cons:
  "shardableTestsKept b c (g # rest) =
     (if run g = RunAlways then shardableTestsKept b c rest
      else (if inBounds b c then tests g else [])
           @ shardableTestsKept b (c + length (tests g)) rest)"
  by (auto simp: shardableTestsKept_def split: prod.splits)

lemma shardBounds_shardStart:
  assumes "0 < totalShards"
  shows "shardBounds \<lparr> shard_current = int k + 1, shard_total = int totalShards \<rparr> shardableTotal
           = Some (shardStart shardableTotal totalShards k,
                   shardStart shardableTotal totalShards (Suc k))"
  using assms by (auto simp: shardBounds_def shardStart_def Let_def algebra_simps min_def)

lemma shardStart_0: "shardStart n t 0 = 0"
proof -
  have "int n - int n div int t * int t = int n mod int t"
    by (simp add: minus_div_mult_eq_mod)
  moreover have "0 \<le> int n mod int t"
    by (metis of_nat_0_le_iff zmod_int)
  ultimately show ?thesis by (simp add: shardStart_def)
qed

lemma shardStart_total:
  assumes "0 < t"
  shows "shardStart n t t = int n"
proof -
  have "int n - int n div int t * int t = int n mod int t"
    by (simp add: minus_div_mult_eq_mod)
  moreover have "int n mod int t < int t" using assms by simp
  ultimately show ?thesis
    by (simp add: shardStart_def min_def)
qed

lemma shardStart_mono: "shardStart n t k \<le> shardStart n t (Suc k)"
proof -
  have "0 \<le> int n div int t" by (simp add: pos_imp_zdiv_nonneg_iff div_int_pos_iff)
  then show ?thesis by (simp add: shardStart_def algebra_simps min_def)
qed

lemma interval_telescope:
  fixes A :: "'a::comm_monoid_add" and f :: "nat \<Rightarrow> int"
  assumes "\<And>j. f j \<le> f (Suc j)"
  shows "(\<Sum>k<n. if f k \<le> c \<and> c < f (Suc k) then A else 0)
           = (if f 0 \<le> c \<and> c < f n then A else 0)"
proof (induction n)
  case 0
  then show ?case by auto
next
  case (Suc n)
  have m: "f 0 \<le> f n" by (induction n) (auto intro: order_trans[OF _ assms])
  show ?case using Suc m assms[of n] by auto
qed

lemma exactly_one_shard:
  fixes A :: "'a::comm_monoid_add"
  assumes "0 < t" "c < n"
  shows "(\<Sum>k<t. if inBounds (Some (shardStart n t k, shardStart n t (Suc k))) c then A else 0) = A"
proof -
  have "(\<Sum>k<t. if shardStart n t k \<le> int c \<and> int c < shardStart n t (Suc k) then A else 0)
      = (if shardStart n t 0 \<le> int c \<and> int c < shardStart n t t then A else 0)"
    by (rule interval_telescope) (rule shardStart_mono)
  then show ?thesis using assms by (simp add: inBounds_def shardStart_0 shardStart_total)
qed

lemma sum_shardableTestsKept:
  assumes "0 < t" "c + shardableSeen gs \<le> n"
    "\<forall>g\<in>set gs. run g \<noteq> RunAlways \<longrightarrow> tests g \<noteq> []"
  shows "(\<Sum>k<t. mset (shardableTestsKept (Some (shardStart n t k, shardStart n t (Suc k))) c gs))
           = mset (concat (map tests (filter (\<lambda>g. run g \<noteq> RunAlways) gs)))"
  using assms(2,3)
proof (induction gs arbitrary: c)
  case Nil
  then show ?case by (simp add: shardableTestsKept_Nil)
next
  case (Cons g rest)
  have s: "shardableSeen (g # rest) = shardableSeen [g] + shardableSeen rest"
    using shardableSeen_append[of "[g]" rest] by simp
  show ?case
  proof (cases "run g = RunAlways")
    case True
    then have "c + shardableSeen rest \<le> n" using Cons.prems(1) s
      by (simp add: shardableSeen_single)
    from Cons.IH[OF this] Cons.prems(2) True show ?thesis
      by (simp add: shardableTestsKept_Cons)
  next
    case False
    then have ne: "tests g \<noteq> []" using Cons.prems(2) by simp
    have le: "c + length (tests g) + shardableSeen rest \<le> n"
      using Cons.prems(1) s False by (simp add: shardableSeen_single)
    then have lt: "c < n" using ne by (cases "tests g") auto
    have "(\<Sum>k<t. mset (shardableTestsKept (Some (shardStart n t k, shardStart n t (Suc k))) c (g # rest)))
        = (\<Sum>k<t. (if inBounds (Some (shardStart n t k, shardStart n t (Suc k))) c
                     then mset (tests g) else {#})
                  + mset (shardableTestsKept (Some (shardStart n t k, shardStart n t (Suc k)))
                       (c + length (tests g)) rest))"
      using False by (intro sum.cong) (auto simp: shardableTestsKept_Cons)
    also have "\<dots> = mset (tests g)
        + (\<Sum>k<t. mset (shardableTestsKept (Some (shardStart n t k, shardStart n t (Suc k)))
                       (c + length (tests g)) rest))"
      by (simp add: sum.distrib exactly_one_shard[OF assms(1) lt])
    also have "\<dots> = mset (tests g)
        + mset (concat (map tests (filter (\<lambda>g. run g \<noteq> RunAlways) rest)))"
      using Cons.IH[OF le] Cons.prems(2) by simp
    finally show ?thesis using False by simp
  qed
qed

lemma shardStart_mono_le: "j \<le> k \<Longrightarrow> shardStart n t j \<le> shardStart n t k"
  by (rule lift_Suc_mono_le[of "shardStart n t"]) (rule shardStart_mono)

lemma summands_disjoint:
  fixes t :: nat
  assumes "(\<Sum>k<t. mset (F k)) = mset xs" "distinct xs" "i < t" "j < t" "i \<noteq> j"
  shows "set (F i) \<inter> set (F j) = {}"
proof (rule ccontr)
  assume "set (F i) \<inter> set (F j) \<noteq> {}"
  then obtain x where x: "x \<in> set (F i)" "x \<in> set (F j)" by auto
  have "count (mset (F i)) x + count (mset (F j)) x = (\<Sum>k\<in>{i, j}. count (mset (F k)) x)"
    using assms(5) by simp
  also have "\<dots> \<le> (\<Sum>k<t. count (mset (F k)) x)"
    using assms(3,4) by (intro sum_mono2) auto
  also have "\<dots> = count (\<Sum>k<t. mset (F k)) x" by (simp add: count_sum)
  also have "\<dots> \<le> 1" unfolding assms(1) using assms(2) by (simp add: distinct_count_atmost_1)
  finally have "count (mset (F i)) x + count (mset (F j)) x \<le> 1" .
  moreover have "1 \<le> count (mset (F i)) x" "1 \<le> count (mset (F j)) x"
    using x by (simp_all add: Suc_le_eq)
  ultimately show False by simp
qed

lemma length_kept_singletons:
  assumes "\<forall>g\<in>set gs. run g \<noteq> RunAlways \<longrightarrow> length (tests g) = 1"
  shows "int (length (shardableTestsKept (Some (a, b)) c gs))
           = max 0 (min b (int c + int (shardableSeen gs)) - max a (int c))"
  using assms
proof (induction gs arbitrary: c)
  case Nil
  then show ?case by (simp add: shardableTestsKept_Nil shardableSeen_def)
next
  case (Cons g rest)
  have s: "shardableSeen (g # rest) = shardableSeen [g] + shardableSeen rest"
    using shardableSeen_append[of "[g]" rest] by simp
  show ?case
  proof (cases "run g = RunAlways")
    case True
    then show ?thesis using Cons s
      by (simp add: shardableTestsKept_Cons shardableSeen_single)
  next
    case False
    then have l: "length (tests g) = 1" using Cons.prems by simp
    have IH: "int (length (shardableTestsKept (Some (a, b)) (c + 1) rest))
           = max 0 (min b (int (c + 1) + int (shardableSeen rest)) - max a (int (c + 1)))"
      using Cons.IH[of "c + 1"] Cons.prems by simp
    have sn: "int (shardableSeen (g # rest)) = 1 + int (shardableSeen rest)"
      using s False l by (simp add: shardableSeen_single)
    show ?thesis
      using False l IH unfolding sn
      by (simp add: shardableTestsKept_Cons inBounds_def) (auto simp: min_def max_def)
  qed
qed

lemma shardStart_width:
  "shardStart n t (Suc k) - shardStart n t k
     = int n div int t + (if int k < int n - (int n div int t) * int t then 1 else 0)"
  by (simp add: shardStart_def algebra_simps min_def)

text \<open>
  C4, as amended. Let the stages hold groups whose shardable ones are not empty and whose
  shardable tests number \<open>shardableTotal\<close>, and let there be at least one shard. Then the
  shardable tests kept by the shards \<open>1 .. totalShards\<close>, added up as multisets, are the
  shardable tests of the groups, each once; when no shardable test occurs twice in the
  groups, no two shards keep the same test; and when every shardable group is a single test,
  the 0-based shard \<open>k\<close> keeps \<open>shardSize + (1 if k < extraOne else 0)\<close> shardable tests. (A
  group goes as a whole to the shard of its first test, so with larger groups the counts
  differ.)
\<close>

theorem shards_partition_shardable_tests:
  assumes "0 < totalShards"
    "shardableTotal = shardableSeen (concat concurrentTestGroups)"
    "\<forall>g\<in>set (concat concurrentTestGroups). run g \<noteq> RunAlways \<longrightarrow> tests g \<noteq> []"
  shows "(\<Sum>k<totalShards. mset (shardableTestsOfShard (int k + 1) (int totalShards)
              shardableTotal concurrentTestGroups))
           = mset (concat (map tests (filter (\<lambda>g. run g \<noteq> RunAlways)
                (concat concurrentTestGroups))))
    \<and> (distinct (concat (map tests (filter (\<lambda>g. run g \<noteq> RunAlways)
                (concat concurrentTestGroups))))
        \<longrightarrow> (\<forall>i<totalShards. \<forall>j<totalShards. i \<noteq> j \<longrightarrow>
               set (shardableTestsOfShard (int i + 1) (int totalShards)
                      shardableTotal concurrentTestGroups)
               \<inter> set (shardableTestsOfShard (int j + 1) (int totalShards)
                      shardableTotal concurrentTestGroups) = {}))
    \<and> ((\<forall>g\<in>set (concat concurrentTestGroups). run g \<noteq> RunAlways \<longrightarrow> length (tests g) = 1)
        \<longrightarrow> (\<forall>k<totalShards.
               int (length (shardableTestsOfShard (int k + 1) (int totalShards)
                      shardableTotal concurrentTestGroups))
               = int shardableTotal div int totalShards
                 + (if int k < int shardableTotal
                       - (int shardableTotal div int totalShards) * int totalShards
                    then 1 else 0)))"
proof -
  let ?gs = "concat concurrentTestGroups"
  let ?F = "\<lambda>k. shardableTestsOfShard (int k + 1) (int totalShards) shardableTotal
      concurrentTestGroups"
  have F: "?F k = shardableTestsKept (Some (shardStart shardableTotal totalShards k,
      shardStart shardableTotal totalShards (Suc k))) 0 ?gs" for k
    by (simp add: shardableTestsOfShard_kept shardBounds_shardStart[OF assms(1)])
  have 1: "(\<Sum>k<totalShards. mset (?F k))
      = mset (concat (map tests (filter (\<lambda>g. run g \<noteq> RunAlways) ?gs)))"
    unfolding F using assms(2,3) by (intro sum_shardableTestsKept[OF assms(1)]) simp_all
  have 2: "\<forall>i<totalShards. \<forall>j<totalShards. i \<noteq> j \<longrightarrow> set (?F i) \<inter> set (?F j) = {}"
    if "distinct (concat (map tests (filter (\<lambda>g. run g \<noteq> RunAlways) ?gs)))"
    using summands_disjoint[where t=totalShards and F="?F", OF 1 that] by blast
  have 3: "\<forall>k<totalShards. int (length (?F k))
      = int shardableTotal div int totalShards
        + (if int k < int shardableTotal
              - (int shardableTotal div int totalShards) * int totalShards
           then 1 else 0)"
    if s: "\<forall>g\<in>set ?gs. run g \<noteq> RunAlways \<longrightarrow> length (tests g) = 1"
  proof (intro allI impI)
    fix k assume k: "k < totalShards"
    let ?a = "shardStart shardableTotal totalShards k"
    let ?b = "shardStart shardableTotal totalShards (Suc k)"
    have a: "0 \<le> ?a"
      using shardStart_mono_le[of 0 k shardableTotal totalShards] by (simp add: shardStart_0)
    have b: "?b \<le> int shardableTotal"
      using shardStart_mono_le[of "Suc k" totalShards shardableTotal totalShards] k
      by (simp add: shardStart_total[OF assms(1)])
    have ab: "?a \<le> ?b" by (rule shardStart_mono)
    have "int (length (?F k)) = max 0 (min ?b (int 0 + int (shardableSeen ?gs)) - max ?a (int 0))"
      unfolding F by (rule length_kept_singletons[OF s])
    also have "\<dots> = ?b - ?a" using a b ab assms(2) by simp
    finally show "int (length (?F k))
      = int shardableTotal div int totalShards
        + (if int k < int shardableTotal
              - (int shardableTotal div int totalShards) * int totalShards
           then 1 else 0)"
      by (simp only: shardStart_width)
  qed
  from 1 2 3 show ?thesis by blast
qed

theorem shards_partition_shardable_tests_witness:
  "(0::nat) < 3
   \<and> (10::nat) = shardableSeen (concat [exShardStageOf [0, 1, 2, 3, 4, 5, 6, 7, 8, 9]])
   \<and> list_all (\<lambda>g. length (tests g) = 1) (concat [exShardStageOf [0, 1, 2, 3, 4, 5, 6, 7, 8, 9]])
   \<and> distinct (concat (map tests (filter (\<lambda>g. run g \<noteq> RunAlways)
         (concat [exShardStageOf [0, 1, 2, 3, 4, 5, 6, 7, 8, 9]]))))
   \<and> (\<Sum>k<3. mset (shardableTestsOfShard (int k + 1) (int 3) 10
                    [exShardStageOf [0, 1, 2, 3, 4, 5, 6, 7, 8, 9]]))
       = mset (concat (map tests (filter (\<lambda>g. run g \<noteq> RunAlways)
            (concat [exShardStageOf [0, 1, 2, 3, 4, 5, 6, 7, 8, 9]]))))
   \<and> set (shardableTestsOfShard (int 0 + 1) (int 3) 10
             [exShardStageOf [0, 1, 2, 3, 4, 5, 6, 7, 8, 9]])
       \<inter> set (shardableTestsOfShard (int 2 + 1) (int 3) 10
             [exShardStageOf [0, 1, 2, 3, 4, 5, 6, 7, 8, 9]]) = {}
   \<and> int (length (shardableTestsOfShard (int 2 + 1) (int 3) 10
             [exShardStageOf [0, 1, 2, 3, 4, 5, 6, 7, 8, 9]])) = 3
   \<and> shardableTestsOfShard 3 3 10 [exShardStageOf [0, 1, 2, 3, 4, 5, 6, 7, 8, 9]]
       = map exShardTest [7, 8, 9]"
proof -
  let ?S = "[exShardStageOf [0, 1, 2, 3, 4, 5, 6, 7, 8, 9]]"
  have t: "(0::nat) < 3" by simp
  have n: "(10::nat) = shardableSeen (concat ?S)"
    by (simp add: shardableSeen_def exShardStageOf_def exGroup_def)
  have l: "list_all (\<lambda>g. length (tests g) = 1) (concat ?S)"
    by (simp add: exShardStageOf_def exGroup_def)
  have ne: "\<forall>g\<in>set (concat ?S). run g \<noteq> RunAlways \<longrightarrow> tests g \<noteq> []"
    by (simp add: exShardStageOf_def exGroup_def)
  have one: "\<forall>g\<in>set (concat ?S). run g \<noteq> RunAlways \<longrightarrow> length (tests g) = 1"
    by (simp add: exShardStageOf_def exGroup_def)
  have d: "distinct (concat (map tests (filter (\<lambda>g. run g \<noteq> RunAlways) (concat ?S))))"
    by (simp add: exShardStageOf_def exGroup_def exShardTest_def exTest_def)
  have v: "shardableTestsOfShard 3 3 10 ?S = map exShardTest [7, 8, 9]"
    by code_simp
  note part = shards_partition_shardable_tests[OF t n ne]
  have 1: "(\<Sum>k<3. mset (shardableTestsOfShard (int k + 1) (int 3) 10 ?S))
       = mset (concat (map tests (filter (\<lambda>g. run g \<noteq> RunAlways) (concat ?S))))"
    using part by (rule conjunct1)
  have p2: "\<forall>i<3. \<forall>j<3. i \<noteq> j \<longrightarrow>
      set (shardableTestsOfShard (int i + 1) (int 3) 10 ?S)
      \<inter> set (shardableTestsOfShard (int j + 1) (int 3) 10 ?S) = {}"
    using part d by blast
  have 2: "set (shardableTestsOfShard (int 0 + 1) (int 3) 10 ?S)
       \<inter> set (shardableTestsOfShard (int 2 + 1) (int 3) 10 ?S) = {}"
    by (rule p2[rule_format]) simp_all
  have p3: "\<forall>k<3. int (length (shardableTestsOfShard (int k + 1) (int 3) 10 ?S))
      = int 10 div int 3 + (if int k < int 10 - (int 10 div int 3) * int 3 then 1 else 0)"
    using part one by blast
  have "int (length (shardableTestsOfShard (int 2 + 1) (int 3) 10 ?S))
      = int 10 div int 3 + (if int 2 < int 10 - (int 10 div int 3) * int 3 then 1 else 0)"
    by (rule p3[rule_format]) simp
  then have 3: "int (length (shardableTestsOfShard (int 2 + 1) (int 3) 10 ?S)) = 3"
    by simp
  from t n l d 1 2 3 v show ?thesis by (intro conjI)
qed

text \<open>
  The count of the claim fails for a group of two tests and two shards: the first shard
  keeps both tests, where \<open>shardSize + (1 if 0 < extraOne else 0)\<close> is 1.
\<close>

theorem shards_partition_shardable_tests_counterexample:
  "shardableSeen (concat [[exGroup 0 RunDefault [exShardTest 0, exShardTest 1]]]) = 2
   \<and> shardableTestsOfShard 1 2 2 [[exGroup 0 RunDefault [exShardTest 0, exShardTest 1]]]
       = [exShardTest 0, exShardTest 1]
   \<and> int (length (shardableTestsOfShard 1 2 2
             [[exGroup 0 RunDefault [exShardTest 0, exShardTest 1]]]))
       \<noteq> 2 div 2 + (if (0::int) < 2 - (2 div 2) * 2 then 1 else 0)"
proof -
  have 1: "shardableSeen (concat [[exGroup 0 RunDefault [exShardTest 0, exShardTest 1]]]) = 2"
    by (simp add: shardableSeen_def exGroup_def)
  have 2: "shardableTestsOfShard 1 2 2 [[exGroup 0 RunDefault [exShardTest 0, exShardTest 1]]]
       = [exShardTest 0, exShardTest 1]"
    by (simp add: shardableTestsOfShard_def shardBounds_def inBounds_def exGroup_def)
  show ?thesis unfolding 2 using 1 by simp
qed

subsection \<open>One shard of one\<close>

lemma allTests_pruneEmptySuites:
  "allTests (pruneEmptySuites s) = allTests s"
  "allTestsOfEntries (pruneEmptyEntries es) = allTestsOfEntries es"
  by (induction s and es rule: pruneEmptySuites_pruneEmptyEntries.induct) auto

lemma pruneEmptyEntries_Nil_iff:
  "pruneEmptyEntries es = [] \<longleftrightarrow> allTestsOfEntries es = []"
proof (induction es)
  case Nil
  then show ?case by simp
next
  case (Cons e es)
  then show ?case by (cases e) auto
qed

lemma filterSuiteWithOnlySemantics_all_tests:
  "(\<forall>t\<in>set (allTests s). tf t) \<Longrightarrow>
     filterSuiteWithOnlySemantics (\<lambda>c. False) tf s
       = (allTests s \<noteq> [], if allTests s \<noteq> [] then pruneEmptySuites s else s)"
  "(\<forall>t\<in>set (allTestsOfEntries es). tf t) \<Longrightarrow>
     map snd (filter fst (visitEntriesWithOnlySemantics (\<lambda>c. False) tf es)) = pruneEmptyEntries es
     \<and> (allTestsOfEntries es = []
          \<longrightarrow> map snd (visitEntriesWithOnlySemantics (\<lambda>c. False) tf es) = es)"
proof (induction s and es rule: allTests_allTestsOfEntries.induct)
  case (1 i es)
  let ?v = "visitEntriesWithOnlySemantics (\<lambda>c. False) tf es"
  from 1 have a: "map snd (filter fst ?v) = pruneEmptyEntries es"
    and b: "allTestsOfEntries es = [] \<longrightarrow> map snd ?v = es"
    by simp_all
  show ?case
  proof (cases "allTestsOfEntries es = []")
    case True
    then have "pruneEmptyEntries es = []" by (simp add: pruneEmptyEntries_Nil_iff)
    then show ?thesis using True a b by (simp add: Let_def)
  next
    case False
    then have "pruneEmptyEntries es \<noteq> []" by (simp add: pruneEmptyEntries_Nil_iff)
    then have "filter fst ?v \<noteq> []" using a by auto
    then show ?thesis using False a by (simp add: Let_def)
  qed
next
  case 2
  then show ?case by simp
next
  case (3 c es)
  then show ?case by auto
next
  case (4 t es)
  then show ?case by auto
qed

lemma shardBounds_one:
  "shardBounds \<lparr> shard_current = 1, shard_total = 1 \<rparr> n = Some (0, int n)"
  by (simp add: shardBounds_def)

lemma shardStage_keeps_all:
  assumes "c + shardableSeen stage \<le> n" "\<forall>g\<in>set stage. tests g \<noteq> []"
  shows "shardStage (Some (0, int n)) c stage = (c + shardableSeen stage, stage)"
  using assms
proof (induction stage arbitrary: c)
  case Nil
  then show ?case by (simp add: shardableSeen_def)
next
  case (Cons g rest)
  have s: "shardableSeen (g # rest) = shardableSeen [g] + shardableSeen rest"
    using shardableSeen_append[of "[g]" rest] by simp
  show ?case
  proof (cases "run g = RunAlways")
    case True
    then show ?thesis using Cons s by (simp add: shardableSeen_single)
  next
    case False
    have ne: "0 < length (tests g)" using Cons.prems(2) by simp
    have le: "c + length (tests g) + shardableSeen rest \<le> n"
      using Cons.prems(1) s False by (simp add: shardableSeen_single)
    have "shardStage (Some (0, int n)) (c + length (tests g)) rest
        = (c + length (tests g) + shardableSeen rest, rest)"
      using Cons.IH[OF le] Cons.prems(2) by simp
    moreover have "c < n" using le ne by linarith
    then have "inBounds (Some (0, int n)) c" by (simp add: inBounds_def)
    ultimately show ?thesis using False s by (simp add: shardableSeen_single)
  qed
qed

lemma shardStages_keeps_all:
  assumes "c + shardableSeen (concat stages) \<le> n" "\<forall>g\<in>set (concat stages). tests g \<noteq> []"
  shows "shardStages (Some (0, int n)) c stages = filter (\<lambda>s. s \<noteq> []) stages"
  using assms
proof (induction stages arbitrary: c)
  case Nil
  then show ?case by simp
next
  case (Cons stage rest)
  have a: "c + shardableSeen stage \<le> n" "c + shardableSeen stage + shardableSeen (concat rest) \<le> n"
    using Cons.prems(1) by (simp_all add: shardableSeen_append)
  have "shardStage (Some (0, int n)) c stage = (c + shardableSeen stage, stage)"
    using a(1) Cons.prems(2) by (intro shardStage_keeps_all) simp_all
  moreover have "shardStages (Some (0, int n)) (c + shardableSeen stage) rest
      = filter (\<lambda>s. s \<noteq> []) rest"
    using a(2) Cons.prems(2) by (intro Cons.IH) simp_all
  moreover have "shardableSeen [] = 0" by (simp add: shardableSeen_def)
  ultimately show ?case by auto
qed

lemma concat_filter_nonempty: "concat (filter (\<lambda>s. s \<noteq> []) xss) = concat xss"
  by (induction xss) auto

text \<open>
  C8, as amended. Take stages of non-empty groups that hold every test of the root suite,
  \<open>shardableTotal\<close> of them in groups that are not \<^verbatim>\<open>always\<close>. The shard filter with shard 1
  of 1 keeps every group: the stages it leaves are the stages that have a group, in order and
  as they were (a stage without groups is dropped). The suite tree keeps all its tests, in
  order; it loses exactly the suites that contain no test, and nothing when it has no test.
\<close>

theorem filterForCurrentShard_one_of_one:
  assumes "filterForCurrentShard (Some \<lparr> shard_current = 1, shard_total = 1 \<rparr>)
             rootSuite concurrentTestGroups = Inr (rootSuite', stages')"
    "countShardable rootSuite 0 (suites rootSuite)
       = Inr (shardableSeen (concat concurrentTestGroups))"
    "\<forall>g\<in>set (concat concurrentTestGroups). tests g \<noteq> []"
    "set (allTests rootSuite) \<subseteq> set (concat (map tests (concat concurrentTestGroups)))"
  shows "stages' = filter (\<lambda>s. s \<noteq> []) concurrentTestGroups
    \<and> rootSuite' = (if allTests rootSuite = [] then rootSuite else pruneEmptySuites rootSuite)
    \<and> allTests rootSuite' = allTests rootSuite"
proof -
  let ?n = "shardableSeen (concat concurrentTestGroups)"
  have k: "shardStages (shardBounds \<lparr> shard_current = 1, shard_total = 1 \<rparr> ?n) 0
      concurrentTestGroups = filter (\<lambda>s. s \<noteq> []) concurrentTestGroups"
    unfolding shardBounds_one using assms(3) by (intro shardStages_keeps_all) simp_all
  have "filterForCurrentShard (Some \<lparr> shard_current = 1, shard_total = 1 \<rparr>)
      rootSuite concurrentTestGroups
      = Inr (snd (filterSuiteWithOnlySemantics (\<lambda>c. False)
               (\<lambda>test. test \<in> set (concat (map tests (concat (filter (\<lambda>s. s \<noteq> [])
                   concurrentTestGroups))))) rootSuite),
             filter (\<lambda>s. s \<noteq> []) concurrentTestGroups)"
    unfolding filterForCurrentShard_def Let_def
    by (simp only: option.case sum.case assms(2) k)
  note f = this
  note e = assms(1)[unfolded f, THEN sum.inject(2)[THEN iffD1], THEN prod.inject[THEN iffD1]]
  have s: "stages' = filter (\<lambda>s. s \<noteq> []) concurrentTestGroups"
    by (rule e[THEN conjunct2, symmetric])
  have r: "rootSuite' = snd (filterSuiteWithOnlySemantics (\<lambda>c. False)
        (\<lambda>test. test \<in> set (concat (map tests (concat (filter (\<lambda>s. s \<noteq> [])
            concurrentTestGroups))))) rootSuite)"
    by (rule e[THEN conjunct1, symmetric])
  have "\<forall>t\<in>set (allTests rootSuite).
      t \<in> set (concat (map tests (concat (filter (\<lambda>s. s \<noteq> []) concurrentTestGroups))))"
    using assms(4) unfolding concat_filter_nonempty by blast
  from filterSuiteWithOnlySemantics_all_tests(1)[OF this]
  have t: "rootSuite' = (if allTests rootSuite = [] then rootSuite else pruneEmptySuites rootSuite)"
    unfolding r by simp
  then have "allTests rootSuite' = allTests rootSuite"
    by (simp add: allTests_pruneEmptySuites)
  with s t show ?thesis by blast
qed

theorem filterForCurrentShard_one_of_one_witness:
  "filterForCurrentShard (Some \<lparr> shard_current = 1, shard_total = 1 \<rparr>)
     (exTwoStageRoot True) [[exGroup 0 RunDefault [exTest 50 0 exFileLink]], []]
     = Inr (exTwoStageRoot False, [[exGroup 0 RunDefault [exTest 50 0 exFileLink]]])
   \<and> countShardable (exTwoStageRoot True) 0 (suites (exTwoStageRoot True))
     = Inr (shardableSeen (concat [[exGroup 0 RunDefault [exTest 50 0 exFileLink]], []]))
   \<and> [[exGroup 0 RunDefault [exTest 50 0 exFileLink]]]
     = filter (\<lambda>s. s \<noteq> []) [[exGroup 0 RunDefault [exTest 50 0 exFileLink]], []]
   \<and> exTwoStageRoot False = pruneEmptySuites (exTwoStageRoot True)
   \<and> allTests (exTwoStageRoot False) = allTests (exTwoStageRoot True)"
proof -
  let ?S = "[[exGroup 0 RunDefault [exTest 50 0 exFileLink]], []]"
  have h: "filterForCurrentShard (Some \<lparr> shard_current = 1, shard_total = 1 \<rparr>)
     (exTwoStageRoot True) ?S
     = Inr (exTwoStageRoot False, [[exGroup 0 RunDefault [exTest 50 0 exFileLink]]])"
    by code_simp
  have c: "countShardable (exTwoStageRoot True) 0 (suites (exTwoStageRoot True))
     = Inr (shardableSeen (concat ?S))"
    by code_simp
  have n: "\<forall>g\<in>set (concat ?S). tests g \<noteq> []" by (simp add: exGroup_def)
  have a: "set (allTests (exTwoStageRoot True)) \<subseteq> set (concat (map tests (concat ?S)))"
    by (simp add: exTwoStageRoot_def exGroup_def)
  have e: "allTests (exTwoStageRoot True) \<noteq> []" by (simp add: exTwoStageRoot_def)
  note one = filterForCurrentShard_one_of_one[OF h c n a]
  have 1: "[[exGroup 0 RunDefault [exTest 50 0 exFileLink]]] = filter (\<lambda>s. s \<noteq> []) ?S"
    using one by (rule conjunct1)
  have 2: "exTwoStageRoot False = pruneEmptySuites (exTwoStageRoot True)"
    using one[THEN conjunct2, THEN conjunct1] e by (simp only: if_False)
  have 3: "allTests (exTwoStageRoot False) = allTests (exTwoStageRoot True)"
    by (rule one[THEN conjunct2, THEN conjunct2])
  from h c 1 2 3 show ?thesis by (intro conjI)
qed

text \<open>
  The claim as it was stated fails when a stage has no group and a project has no test: the
  empty stage is dropped and the project suite is removed from the root suite.
\<close>

theorem filterForCurrentShard_one_of_one_counterexample:
  "filterForCurrentShard (Some \<lparr> shard_current = 1, shard_total = 1 \<rparr>)
     (exTwoStageRoot True) [[exGroup 0 RunDefault [exTest 50 0 exFileLink]], []]
     = Inr (exTwoStageRoot False, [[exGroup 0 RunDefault [exTest 50 0 exFileLink]]])
   \<and> exTwoStageRoot False \<noteq> exTwoStageRoot True
   \<and> [[exGroup 0 RunDefault [exTest 50 0 exFileLink]]]
       \<noteq> [[exGroup 0 RunDefault [exTest 50 0 exFileLink]], []]"
proof -
  have "filterForCurrentShard (Some \<lparr> shard_current = 1, shard_total = 1 \<rparr>)
     (exTwoStageRoot True) [[exGroup 0 RunDefault [exTest 50 0 exFileLink]], []]
     = Inr (exTwoStageRoot False, [[exGroup 0 RunDefault [exTest 50 0 exFileLink]]])"
    by code_simp
  moreover have "exTwoStageRoot False \<noteq> exTwoStageRoot True"
    by (simp add: exTwoStageRoot_def)
  ultimately show ?thesis by simp
qed

section \<open>Properties of the stage dispatcher\<close>










subsection \<open>The final status\<close>












section \<open>Properties of the file collector\<close>

text \<open>
  C10. For a test directory that does not exist, or that exists and is not a directory, the
  file collector returns the empty list of files and raises no error, whatever
  \<^verbatim>\<open>respectGitIgnore\<close> is.
\<close>

theorem collectFiles_no_directory:
  assumes "lookupPath fe testDir = None
           \<or> (\<exists>node. lookupPath fe testDir = Some node \<and> \<not> isDirectory node)"
  shows "collectFiles fe testDir respectGitIgnore = Inr []"
  using assms by (auto simp: collectFiles_def)

theorem collectFiles_no_directory_witness:
  "lookupPath exFsEnv ''/q'' = None
   \<and> collectFiles exFsEnv ''/q'' True = Inr []
   \<and> lookupPath exFsEnv ''/p/a.spec.ts'' = Some (File ''test'')
   \<and> \<not> isDirectory (File ''test'')
   \<and> collectFiles exFsEnv ''/p/a.spec.ts'' False = Inr []
   \<and> collectFiles exFsEnv ''/p'' True = Inr [''/p/a.spec.ts'']"
proof -
  have 1: "lookupPath exFsEnv ''/q'' = None" by (simp add: exFsEnv_def)
  have 2: "lookupPath exFsEnv ''/p/a.spec.ts'' = Some (File ''test'')"
    by (simp add: exFsEnv_def)
  have 3: "\<not> isDirectory (File ''test'')" by simp
  have 4: "collectFiles exFsEnv ''/p'' True = Inr [''/p/a.spec.ts'']"
    by (simp add: collectFiles_def exFsEnv_def)
  have a: "collectFiles exFsEnv ''/q'' True = Inr []"
    using 1 by (intro collectFiles_no_directory) simp
  have b: "collectFiles exFsEnv ''/p/a.spec.ts'' False = Inr []"
    using 2 3 by (intro collectFiles_no_directory) simp
  from 1 a 2 3 b 4 show ?thesis by (intro conjI)
qed

end
